theory Spec2Isabelle
  imports Main "HOL-Library.Word" "HOL-Library.Multiset"
begin

section \<open>Data model of \<^verbatim>\<open>main.go\<close>\<close>

text \<open>
  Go's \<^verbatim>\<open>uint64\<close> is a 64-bit word: addition wraps around, comparison is unsigned.
  A \<^verbatim>\<open>*flameGraphNode\<close> is an address into a store of nodes.
\<close>

type_synonym u64 = "64 word"
type_synonym addr = nat

definition rootElementId :: u64 where
  "rootElementId = 1"

text \<open>
  The scalar fields of \<^verbatim>\<open>flameGraphNode\<close> (lines 31-40) and its \<^verbatim>\<open>childrenIds\<close>
  slice. The Go field \<^verbatim>\<open>id\<close> is called \<open>idn\<close> here.
\<close>

record nodeFields =
  idn :: u64
  cluster :: string
  Name :: string
  Total :: u64
  Value :: u64
  childrenIds :: "u64 list"

text \<open>
  A node as the store holds it: the fields, the \<^verbatim>\<open>Children\<close> slice of pointers and the
  \<^verbatim>\<open>parent\<close> pointer (\<open>None\<close> is \<^verbatim>\<open>nil\<close>).
\<close>

record heapNode = nodeFields +
  ChildrenPtr :: "addr list"
  parent :: "addr option"

text \<open>
  A node together with everything reachable through \<^verbatim>\<open>Children\<close>, unfolded into a value.
  The functions that only walk down from a node (\<^verbatim>\<open>trimNodes\<close>, \<^verbatim>\<open>convertToClickhouse\<close>,
  \<^verbatim>\<open>reconstructTree\<close>) work on this form; the \<^verbatim>\<open>parent\<close> pointer of a node is its position
  in the value and is not stored again.
\<close>

datatype flameGraphNode = Node (nfields: nodeFields) (Children: "flameGraphNode list")

text \<open>\<^verbatim>\<open>clickhouseField\<close> (lines 111-120); \<^verbatim>\<open>Timestamp\<close> is an \<^verbatim>\<open>int64\<close>.\<close>

record clickhouseField =
  Timestamp :: "64 word"
  GraphType :: string
  Cluster :: string
  Name_ch :: string
  Total_ch :: u64
  Id_ch :: u64
  Value_ch :: u64
  ChildrenIds :: "u64 list"

section \<open>trimNodes (lines 57-66)\<close>

text \<open>
  The loop keeps a child whose \<^verbatim>\<open>Value\<close> exceeds the limit and trims it in place; the node
  itself is never tested, and only its \<^verbatim>\<open>Children\<close> field is assigned.
\<close>

fun trimNodes :: "flameGraphNode \<Rightarrow> u64 \<Rightarrow> flameGraphNode"
  and trimLoop :: "flameGraphNode list \<Rightarrow> u64 \<Rightarrow> flameGraphNode list" where
  "trimNodes (Node f cs) limit = Node f (trimLoop cs limit)"
| "trimLoop [] limit = []"
| "trimLoop (n # ns) limit =
     (if Value (nfields n) > limit then trimNodes n limit # trimLoop ns limit
      else trimLoop ns limit)"

section \<open>convertToClickhouse (lines 122-145)\<close>

definition row :: "nodeFields \<Rightarrow> 64 word \<Rightarrow> clickhouseField" where
  "row f timestamp =
     \<lparr>Timestamp = timestamp, GraphType = [], Cluster = cluster f, Name_ch = Name f,
      Total_ch = Total f, Id_ch = idn f, Value_ch = Value f, ChildrenIds = childrenIds f\<rparr>"

text \<open>
  The result starts with the node's own row; then, for every child, the child's row is
  appended, followed by the whole result of the recursive call on that child.
\<close>

fun convertToClickhouse :: "flameGraphNode \<Rightarrow> 64 word \<Rightarrow> clickhouseField list"
  and convertLoop :: "flameGraphNode list \<Rightarrow> 64 word \<Rightarrow> clickhouseField list" where
  "convertToClickhouse (Node f cs) timestamp = row f timestamp # convertLoop cs timestamp"
| "convertLoop [] timestamp = []"
| "convertLoop (n # ns) timestamp =
     row (nfields n) timestamp # convertToClickhouse n timestamp @ convertLoop ns timestamp"

section \<open>reconstructTree (lines 428-444) and the read path of getHandler\<close>

text \<open>Indexing a Go map at a missing key gives the zero value of the element type.\<close>

definition zeroField :: clickhouseField where
  "zeroField =
     \<lparr>Timestamp = 0, GraphType = [], Cluster = [], Name_ch = [], Total_ch = 0, Id_ch = 0,
      Value_ch = 0, ChildrenIds = []\<rparr>"

definition dataAt :: "(u64 \<rightharpoonup> clickhouseField) \<Rightarrow> u64 \<Rightarrow> clickhouseField" where
  "dataAt data i = (case data i of None \<Rightarrow> zeroField | Some r \<Rightarrow> r)"

definition nodeFromData :: "(u64 \<rightharpoonup> clickhouseField) \<Rightarrow> u64 \<Rightarrow> flameGraphNode" where
  "nodeFromData data i =
     Node \<lparr>idn = Id_ch (dataAt data i), cluster = Cluster (dataAt data i),
           Name = Name_ch (dataAt data i), Total = Total_ch (dataAt data i),
           Value = Value_ch (dataAt data i), childrenIds = ChildrenIds (dataAt data i)\<rparr> []"

text \<open>
  The recursion follows the ids stored in the rows, so on rows whose id lists form a cycle
  it does not return. The first argument bounds the depth of the recursion; \<open>None\<close> says
  that the bound was reached.
\<close>

fun reconstructLoop ::
  "(flameGraphNode \<Rightarrow> flameGraphNode option) \<Rightarrow> (u64 \<rightharpoonup> clickhouseField) \<Rightarrow> u64 \<Rightarrow>
   flameGraphNode \<Rightarrow> u64 list \<Rightarrow> flameGraphNode option" where
  "reconstructLoop recurse data minValue root [] = Some root"
| "reconstructLoop recurse data minValue root (i # ids) =
     (if Value_ch (dataAt data i) > minValue then
        (case recurse (nodeFromData data i) of
           None \<Rightarrow> None
         | Some node \<Rightarrow>
             reconstructLoop recurse data minValue
               (Node (nfields root) (Children root @ [node])) ids)
      else reconstructLoop recurse data minValue root ids)"

fun reconstructTree ::
  "nat \<Rightarrow> (u64 \<rightharpoonup> clickhouseField) \<Rightarrow> flameGraphNode \<Rightarrow> u64 \<Rightarrow> flameGraphNode option" where
  "reconstructTree 0 data root minValue = None"
| "reconstructTree (Suc fuel) data root minValue =
     reconstructLoop (\<lambda>node. reconstructTree fuel data node minValue) data minValue root
       (childrenIds (nfields root))"

text \<open>Lines 531-546 of getHandler: the scanned rows are stored under their id, in order.\<close>

fun rowsById :: "(u64 \<rightharpoonup> clickhouseField) \<Rightarrow> clickhouseField list \<Rightarrow> (u64 \<rightharpoonup> clickhouseField)" where
  "rowsById data [] = data"
| "rowsById data (res # rows) = rowsById (data(Id_ch res \<mapsto> res)) rows"

text \<open>Lines 548-558 of getHandler: the root is read from the row of the root id.\<close>

definition reconstructFromRows ::
  "nat \<Rightarrow> clickhouseField list \<Rightarrow> u64 \<Rightarrow> flameGraphNode option" where
  "reconstructFromRows fuel rows minValue =
     reconstructTree fuel (rowsById Map.empty rows)
       (nodeFromData (rowsById Map.empty rows) rootElementId) minValue"

text \<open>
  Line 519 of getHandler: of the rows of the snapshot, the query returns those whose value
  exceeds the minimum value. Lines 519-558: the tree is rebuilt from the rows returned.
\<close>

definition queryRows :: "clickhouseField list \<Rightarrow> u64 \<Rightarrow> clickhouseField list" where
  "queryRows rows minValue = filter (\<lambda>res. Value_ch res > minValue) rows"

definition readSnapshot :: "nat \<Rightarrow> clickhouseField list \<Rightarrow> u64 \<Rightarrow> flameGraphNode option" where
  "readSnapshot fuel rows minValue = reconstructFromRows fuel (queryRows rows minValue) minValue"

section \<open>constructTree (lines 68-109)\<close>

text \<open>\<^verbatim>\<open>strings.Split(s, sep)\<close> for a separator of one character.\<close>

fun Split :: "string \<Rightarrow> char \<Rightarrow> string list" where
  "Split [] sep = [[]]"
| "Split (c # cs) sep =
     (if c = sep then [] # Split cs sep
      else (case Split cs sep of [] \<Rightarrow> [[c]] | p # ps \<Rightarrow> (c # p) # ps))"

text \<open>
  The variables that live across iterations: the store, the map \<^verbatim>\<open>seen\<close> and the
  counter \<^verbatim>\<open>cnt\<close>. A new node is allocated at the next free address of the store.
\<close>

record ctState =
  heap :: "heapNode list"
  seen :: "string \<rightharpoonup> addr"
  cnt :: u64

text \<open>
  One iteration of the inner loop (lines 78-107), on the state and \<^verbatim>\<open>seenSoFar\<close>.
  \<open>None\<close> is the panic of \<^verbatim>\<open>parent.cluster\<close> on a nil \<^verbatim>\<open>parent\<close>, which is what
  \<^verbatim>\<open>seen[seenSoFarPrev]\<close> gives for a missing key.
\<close>

definition visitPart ::
  "u64 \<Rightarrow> addr \<Rightarrow> ctState \<times> string \<Rightarrow> string \<Rightarrow> (ctState \<times> string) option" where
  "visitPart tot root st part =
     (let s = fst st; seenSoFarPrev = snd st; seenSoFar = snd st @ ''.'' @ part in
      if part = [] then Some st
      else (case seen s seenSoFar of
          Some n \<Rightarrow>
            Some (s\<lparr>heap := (heap s)[n := (heap s ! n)\<lparr>Value := Value (heap s ! n) + 1\<rparr>]\<rparr>,
                  seenSoFar)
        | None \<Rightarrow>
            (case (if seenSoFarPrev \<noteq> [] then seen s seenSoFarPrev else Some root) of
               None \<Rightarrow> None
             | Some p \<Rightarrow>
                 (let data = \<lparr>idn = cnt s, cluster = cluster (heap s ! p), Name = part,
                              Total = tot, Value = 1, childrenIds = [],
                              ChildrenPtr = [], parent = Some p\<rparr>;
                      a = length (heap s)
                  in Some (s\<lparr>heap :=
                               (heap s)[p := (heap s ! p)
                                  \<lparr>childrenIds := childrenIds (heap s ! p) @ [cnt s],
                                   ChildrenPtr := ChildrenPtr (heap s ! p) @ [a]\<rparr>] @ [data],
                             seen := (seen s)(seenSoFar \<mapsto> a),
                             cnt := cnt s + 1\<rparr>,
                           seenSoFar)))))"

fun forParts ::
  "u64 \<Rightarrow> addr \<Rightarrow> ctState \<times> string \<Rightarrow> string list \<Rightarrow> (ctState \<times> string) option" where
  "forParts tot root st [] = Some st"
| "forParts tot root st (part # parts) =
     (case visitPart tot root st part of
        None \<Rightarrow> None
      | Some st' \<Rightarrow> forParts tot root st' parts)"

fun forMetrics :: "u64 \<Rightarrow> addr \<Rightarrow> ctState \<Rightarrow> string list \<Rightarrow> ctState option" where
  "forMetrics tot root s [] = Some s"
| "forMetrics tot root s (metric # metrics) =
     (case forParts tot root (s, []) (butlast (Split metric CHR ''.'')) of
        None \<Rightarrow> None
      | Some st \<Rightarrow> forMetrics tot root (fst st) metrics)"

definition constructTree :: "heapNode list \<Rightarrow> addr \<Rightarrow> string list \<Rightarrow> heapNode list option" where
  "constructTree h root metrics =
     map_option heap
       (forMetrics (of_nat (length metrics)) root
          \<lparr>heap = h, seen = Map.empty, cnt = rootElementId + 1\<rparr> metrics)"

text \<open>Lines 335-343 of parseTree: the root node, alone in the store, is handed to constructTree.\<close>

definition newRoot :: "string \<Rightarrow> string list \<Rightarrow> heapNode" where
  "newRoot clusterName metrics =
     \<lparr>idn = rootElementId, cluster = clusterName, Name = ''all'',
      Total = of_nat (length metrics), Value = of_nat (length metrics), childrenIds = [],
      ChildrenPtr = [], parent = None\<rparr>"

text \<open>
  The node at an address with everything below it, as a value. The first argument bounds
  the depth; \<open>None\<close> says that an address is outside the store or the bound was reached.
\<close>

fun mapM :: "('a \<Rightarrow> 'b option) \<Rightarrow> 'a list \<Rightarrow> 'b list option" where
  "mapM f [] = Some []"
| "mapM f (x # xs) =
     (case f x of
        None \<Rightarrow> None
      | Some y \<Rightarrow> (case mapM f xs of None \<Rightarrow> None | Some ys \<Rightarrow> Some (y # ys)))"

fun tree_of :: "nat \<Rightarrow> heapNode list \<Rightarrow> addr \<Rightarrow> flameGraphNode option" where
  "tree_of 0 h a = None"
| "tree_of (Suc fuel) h a =
     (if a < length h then
        (case mapM (tree_of fuel h) (ChildrenPtr (h ! a)) of
           None \<Rightarrow> None
         | Some ts \<Rightarrow> Some (Node (nodeFields.truncate (h ! a)) ts))
      else None)"

definition parseTree :: "string \<Rightarrow> string list \<Rightarrow> flameGraphNode option" where
  "parseTree clusterName metrics =
     (case constructTree [newRoot clusterName metrics] 0 metrics of
        None \<Rightarrow> None
      | Some h \<Rightarrow> tree_of (length h) h 0)"

section \<open>getList (lines 279-317)\<close>

text \<open>
  What one \<^verbatim>\<open>httpClient.Get\<close> gives: an error, or a response with a status code and a body.
  \<^verbatim>\<open>Get\<close> reports no error for a response with a status outside 2xx.
\<close>

datatype 'b attempt = TransportError | Response nat 'b

text \<open>
  The JSON decoder is a parameter: from a body and the current \<^verbatim>\<open>inputMetrics.Metrics\<close> it
  gives the new \<^verbatim>\<open>inputMetrics.Metrics\<close> and whether it returned an error. The network is a
  function from the number of the try to what that try gives. The result is the returned
  slice and the number of requests sent.
\<close>

function getList_retry ::
  "('b \<Rightarrow> string list \<Rightarrow> string list \<times> bool) \<Rightarrow> (nat \<Rightarrow> 'b attempt) \<Rightarrow> string list \<Rightarrow> nat \<Rightarrow>
   string list \<times> nat" where
  "getList_retry decode net inputMetrics tries =
     (if tries > 3 then ([], tries - 1)
      else (case net tries of
          TransportError \<Rightarrow> getList_retry decode net inputMetrics (tries + 1)
        | Response status body \<Rightarrow>
            (case decode body inputMetrics of
               (m, err) \<Rightarrow>
                 if err then getList_retry decode net m (tries + 1) else (m, tries))))"
  by pat_completeness auto
termination
  by (relation "measure (\<lambda>(decode, net, inputMetrics, tries). 4 - tries)") auto

declare getList_retry.simps [simp del]

definition getList ::
  "('b \<Rightarrow> string list \<Rightarrow> string list \<times> bool) \<Rightarrow> (nat \<Rightarrow> 'b attempt) \<Rightarrow> string list \<times> nat" where
  "getList decode net = getList_retry decode net [] 1"

section \<open>getHandler (lines 446-460)\<close>

text \<open>
  What the handler does, as the list of its effects. \<^verbatim>\<open>logger.Fatal\<close> of zap writes the
  entry and then calls \<^verbatim>\<open>os.Exit(1)\<close>: nothing after it runs. The rest of the handler, for
  a request with both parameters, is a parameter.
\<close>

datatype effect = LogFatal string | LogError string | HttpError nat | OsExit nat | Write string

definition logger_Fatal :: "string \<Rightarrow> effect list \<Rightarrow> effect list" where
  "logger_Fatal msg rest = [LogFatal msg, OsExit 1]"

definition StatusBadRequest :: nat where
  "StatusBadRequest = 400"

definition getHandler :: "string \<Rightarrow> string \<Rightarrow> (string \<Rightarrow> string \<Rightarrow> effect list) \<Rightarrow> effect list" where
  "getHandler ts clusterParam query =
     (if ts = [] \<or> clusterParam = [] then
        logger_Fatal ''You must specify cluster and ts'' [HttpError StatusBadRequest]
      else query ts clusterParam)"

section \<open>Notions used to state the properties\<close>

text \<open>All nodes of a tree (the node first), its proper descendants, and the ids in it.\<close>

fun nodes :: "flameGraphNode \<Rightarrow> flameGraphNode list" where
  "nodes (Node f cs) = Node f cs # concat (map nodes cs)"

definition subnodes :: "flameGraphNode \<Rightarrow> flameGraphNode list" where
  "subnodes t = concat (map nodes (Children t))"

definition ids :: "flameGraphNode \<Rightarrow> u64 list" where
  "ids t = map (\<lambda>n. idn (nfields n)) (nodes t)"

text \<open>
  Whether one try of getList fails, what \<^verbatim>\<open>inputMetrics.Metrics\<close> holds after it, and what it
  holds before try \<open>k\<close> when every earlier try failed. \<open>withStatus\<close> replaces the status codes
  of the responses.
\<close>

definition attemptFails :: "('b \<Rightarrow> string list \<Rightarrow> string list \<times> bool) \<Rightarrow> string list \<Rightarrow> 'b attempt \<Rightarrow> bool" where
  "attemptFails decode m a = (case a of TransportError \<Rightarrow> True | Response status body \<Rightarrow> snd (decode body m))"

definition metricsAfter :: "('b \<Rightarrow> string list \<Rightarrow> string list \<times> bool) \<Rightarrow> string list \<Rightarrow> 'b attempt \<Rightarrow> string list" where
  "metricsAfter decode m a = (case a of TransportError \<Rightarrow> m | Response status body \<Rightarrow> fst (decode body m))"

fun metricsBefore :: "('b \<Rightarrow> string list \<Rightarrow> string list \<times> bool) \<Rightarrow> (nat \<Rightarrow> 'b attempt) \<Rightarrow> nat \<Rightarrow> string list" where
  "metricsBefore decode net 0 = []"
| "metricsBefore decode net (Suc k) =
     (if k = 0 then [] else metricsAfter decode (metricsBefore decode net k) (net k))"

definition withStatus :: "(nat \<Rightarrow> nat) \<Rightarrow> (nat \<Rightarrow> 'b attempt) \<Rightarrow> nat \<Rightarrow> 'b attempt" where
  "withStatus g net k = (case net k of TransportError \<Rightarrow> TransportError | Response status body \<Rightarrow> Response (g status) body)"

text \<open>Example inputs: a decoder of bodies that are either malformed or a listing, and networks.\<close>

definition decodeOpt :: "string list option \<Rightarrow> string list \<Rightarrow> string list \<times> bool" where
  "decodeOpt body m = (case body of None \<Rightarrow> (m, True) | Some l \<Rightarrow> (l, False))"

definition net500 :: "nat \<Rightarrow> string list option attempt" where
  "net500 k = Response 500 (Some [''a.b''])"

definition netDown :: "nat \<Rightarrow> string list option attempt" where
  "netDown k = (if k = 2 then Response 200 None else TransportError)"

definition netRetry :: "nat \<Rightarrow> string list option attempt" where
  "netRetry k = (if k = 1 then TransportError else Response 200 (Some [''x.y'']))"

text \<open>Example trees.\<close>

definition leaf :: "u64 \<Rightarrow> string \<Rightarrow> u64 \<Rightarrow> u64 \<Rightarrow> flameGraphNode" where
  "leaf i n tot v = Node \<lparr>idn = i, cluster = ''main'', Name = n, Total = tot, Value = v, childrenIds = []\<rparr> []"

definition exampleTree :: flameGraphNode where
  "exampleTree =
     Node \<lparr>idn = 1, cluster = ''main'', Name = ''all'', Total = 6, Value = 6, childrenIds = [2, 4]\<rparr>
       [Node \<lparr>idn = 2, cluster = ''main'', Name = ''a'', Total = 6, Value = 1, childrenIds = [3]\<rparr>
          [leaf 3 ''b'' 6 5],
        leaf 4 ''c'' 6 4]"

definition emptyTree :: flameGraphNode where
  "emptyTree = Node \<lparr>idn = 1, cluster = ''main'', Name = ''all'', Total = 0, Value = 0, childrenIds = []\<rparr> []"

text \<open>The node whose fields are all zero values.\<close>

definition zeroNode :: flameGraphNode where
  "zeroNode = Node \<lparr>idn = 0, cluster = [], Name = [], Total = 0, Value = 0, childrenIds = []\<rparr> []"

section \<open>Notions used to reason about constructTree\<close>

text \<open>
  The addresses reachable from an address through \<^verbatim>\<open>Children\<close>, each with the names on the
  way to it from the start, in the order of \<open>tree_of\<close>; and the same for a tree, with the
  value and total in place of the address.
\<close>

fun paths_of :: "nat \<Rightarrow> heapNode list \<Rightarrow> string list \<Rightarrow> addr \<Rightarrow> (addr \<times> string list) list option" where
  "paths_of 0 h pre a = None"
| "paths_of (Suc fuel) h pre a =
     (if a < length h then
        (case mapM (paths_of fuel h (pre @ [Name (h ! a)])) (ChildrenPtr (h ! a)) of
           None \<Rightarrow> None
         | Some xss \<Rightarrow> Some ((a, pre @ [Name (h ! a)]) # concat xss))
      else None)"

declare paths_of.simps(2) [simp del]

fun pathvals :: "string list \<Rightarrow> flameGraphNode \<Rightarrow> (string list \<times> u64 \<times> u64) list" where
  "pathvals pre (Node f cs) =
     (pre @ [Name f], Value f, Total f) # concat (map (pathvals (pre @ [Name f])) cs)"

text \<open>
  The non-empty parts of a key; the values \<^verbatim>\<open>seenSoFar\<close> takes over the parts of one name,
  started from a given value; the keys that one name and a list of names visit.
\<close>

definition partsOf :: "string \<Rightarrow> string list" where
  "partsOf k = filter (\<lambda>p. p \<noteq> []) (Split k CHR ''.'')"

fun keysOf :: "string \<Rightarrow> string list \<Rightarrow> string list" where
  "keysOf sf [] = []"
| "keysOf sf (part # parts) =
     (if part = [] then keysOf sf parts
      else (sf @ ''.'' @ part) # keysOf (sf @ ''.'' @ part) parts)"

definition metricKeys :: "string \<Rightarrow> string list" where
  "metricKeys metric = keysOf [] (butlast (Split metric CHR ''.''))"

definition allKeys :: "string list \<Rightarrow> string list" where
  "allKeys metrics = concat (map metricKeys metrics)"

text \<open>
  The invariant that constructTree keeps, for a store whose root is at address 0, after
  the keys \<open>vs\<close> have been visited: \<^verbatim>\<open>seen\<close> holds exactly those keys, each with a node of
  its own that is not the root, whose value is the number of visits of the key and whose
  id is its address plus one; the root keeps its scalar fields; the children ids of a node
  are the ids of its children; and every address of the store is reached from the root
  exactly once, under the names of the parts of its key.
\<close>

definition seenOk :: "heapNode \<Rightarrow> u64 \<Rightarrow> ctState \<Rightarrow> string list \<Rightarrow> bool" where
  "seenOk r0 tot s vs \<longleftrightarrow>
     dom (seen s) = set vs \<and>
     (\<forall>k a. seen s k = Some a \<longrightarrow>
        0 < a \<and> a < length (heap s) \<and>
        Value (heap s ! a) = of_nat (count_list vs k) \<and> Total (heap s ! a) = tot \<and>
        idn (heap s ! a) = of_nat (a + 1) \<and> cluster (heap s ! a) = cluster r0) \<and>
     (\<forall>k k' a. seen s k = Some a \<longrightarrow> seen s k' = Some a \<longrightarrow> k = k')"

definition rootOk :: "heapNode \<Rightarrow> heapNode list \<Rightarrow> bool" where
  "rootOk r0 h \<longleftrightarrow>
     0 < length h \<and> idn (h ! 0) = idn r0 \<and> cluster (h ! 0) = cluster r0 \<and>
     Name (h ! 0) = Name r0 \<and> Total (h ! 0) = Total r0 \<and> Value (h ! 0) = Value r0"

definition kidsOk :: "heapNode list \<Rightarrow> bool" where
  "kidsOk h \<longleftrightarrow>
     (\<forall>a < length h.
        childrenIds (h ! a) = map (\<lambda>c. of_nat (c + 1)) (ChildrenPtr (h ! a)) \<and>
        (\<forall>c \<in> set (ChildrenPtr (h ! a)). 0 < c \<and> c < length h))"

definition pathsOk :: "heapNode \<Rightarrow> ctState \<Rightarrow> bool" where
  "pathsOk r0 s \<longleftrightarrow>
     (\<exists>aps. paths_of (length (heap s)) (heap s) [] 0 = Some aps \<and>
        image_mset fst (mset aps) = mset [0..<length (heap s)] \<and>
        (\<forall>x \<in> set aps.
           (fst x = 0 \<longrightarrow> snd x = [Name r0]) \<and>
           (0 < fst x \<longrightarrow> (\<exists>k. seen s k = Some (fst x) \<and> snd x = Name r0 # partsOf k))))"

definition ctInv :: "heapNode \<Rightarrow> u64 \<Rightarrow> ctState \<Rightarrow> string list \<Rightarrow> bool" where
  "ctInv r0 tot s vs \<longleftrightarrow>
     rootOk r0 (heap s) \<and> cnt s = of_nat (length (heap s) + 1) \<and>
     seenOk r0 tot s vs \<and> kidsOk (heap s) \<and> pathsOk r0 s"

text \<open>A tree in which the children ids of every node are the ids of its children.\<close>

definition wfTree :: "flameGraphNode \<Rightarrow> bool" where
  "wfTree t \<longleftrightarrow>
     (\<forall>m \<in> set (nodes t). childrenIds (nfields m) = map (\<lambda>c. idn (nfields c)) (Children m))"

text \<open>What is known of the tree parseTree builds, with the final state and the reached addresses.\<close>

definition builtFrom ::
  "string \<Rightarrow> string list \<Rightarrow> flameGraphNode \<Rightarrow> ctState \<Rightarrow> (addr \<times> string list) list \<Rightarrow> bool" where
  "builtFrom c ms t s aps \<longleftrightarrow>
     parseTree c ms = Some t \<and>
     tree_of (length (heap s)) (heap s) 0 = Some t \<and>
     ctInv (newRoot c ms) (of_nat (length ms)) s (allKeys ms) \<and>
     paths_of (length (heap s)) (heap s) [] 0 = Some aps \<and>
     image_mset fst (mset aps) = mset [0..<length (heap s)] \<and>
     (\<forall>x \<in> set aps.
        (fst x = 0 \<longrightarrow> snd x = [''all'']) \<and>
        (0 < fst x \<longrightarrow> (\<exists>k. seen s k = Some (fst x) \<and> snd x = ''all'' # partsOf k))) \<and>
     map nfields (nodes t) = map (\<lambda>x. nodeFields.truncate (heap s ! fst x)) aps \<and>
     pathvals [] t = map (\<lambda>x. (snd x, Value (heap s ! fst x), Total (heap s ! fst x))) aps"

text \<open>The tree built from the names \<^verbatim>\<open>a.b.c\<close>, \<^verbatim>\<open>a.b.d\<close> and \<^verbatim>\<open>a.e\<close>.\<close>

definition exampleBuilt :: flameGraphNode where
  "exampleBuilt =
     Node \<lparr>idn = 1, cluster = ''main'', Name = ''all'', Total = 3, Value = 3, childrenIds = [2]\<rparr>
       [Node \<lparr>idn = 2, cluster = ''main'', Name = ''a'', Total = 3, Value = 3, childrenIds = [3]\<rparr>
          [Node \<lparr>idn = 3, cluster = ''main'', Name = ''b'', Total = 3, Value = 2, childrenIds = []\<rparr> []]]"

text \<open>The key made of a list of parts.\<close>

definition joinParts :: "string list \<Rightarrow> string" where
  "joinParts ps = concat (map (\<lambda>p. ''.'' @ p) ps)"

text \<open>The trees built from the names \<^verbatim>\<open>a.x\<close>, \<^verbatim>\<open>b.x\<close> and from \<^verbatim>\<open>b.x\<close>, \<^verbatim>\<open>a.x\<close>.\<close>

definition builtAB :: flameGraphNode where
  "builtAB =
     Node \<lparr>idn = 1, cluster = ''main'', Name = ''all'', Total = 2, Value = 2, childrenIds = [2, 3]\<rparr>
       [Node \<lparr>idn = 2, cluster = ''main'', Name = ''a'', Total = 2, Value = 1, childrenIds = []\<rparr> [],
        Node \<lparr>idn = 3, cluster = ''main'', Name = ''b'', Total = 2, Value = 1, childrenIds = []\<rparr> []]"

definition builtBA :: flameGraphNode where
  "builtBA =
     Node \<lparr>idn = 1, cluster = ''main'', Name = ''all'', Total = 2, Value = 2, childrenIds = [2, 3]\<rparr>
       [Node \<lparr>idn = 2, cluster = ''main'', Name = ''b'', Total = 2, Value = 1, childrenIds = []\<rparr> [],
        Node \<lparr>idn = 3, cluster = ''main'', Name = ''a'', Total = 2, Value = 1, childrenIds = []\<rparr> []]"

section \<open>Properties of trimNodes\<close>

lemma trimLoop_filter:
  "trimLoop cs f = map (\<lambda>n. trimNodes n f) (filter (\<lambda>n. Value (nfields n) > f) cs)"
  by (induction cs) auto

lemma nfields_trimNodes: "nfields (trimNodes t f) = nfields t"
  by (cases t) simp

lemma Children_trimNodes:
  "Children (trimNodes t f) = map (\<lambda>n. trimNodes n f) (filter (\<lambda>n. Value (nfields n) > f) (Children t))"
  by (cases t) (simp add: trimLoop_filter)

lemma nodes_unfold: "nodes t = t # concat (map nodes (Children t))"
  by (cases t) simp

lemma self_in_nodes: "t \<in> set (nodes t)"
  by (cases t) simp

lemma nodes_trimNodes_origin:
  "m \<in> set (nodes (trimNodes t f)) \<Longrightarrow> \<exists>n \<in> set (nodes t). m = trimNodes n f"
proof (induction t arbitrary: m)
  case (Node fs cs)
  from Node.prems have "m = trimNodes (Node fs cs) f \<or>
      (\<exists>c \<in> set cs. Value (nfields c) > f \<and> m \<in> set (nodes (trimNodes c f)))"
    by (auto simp: trimLoop_filter)
  then show ?case
  proof
    assume "m = trimNodes (Node fs cs) f"
    then show ?thesis by (metis self_in_nodes)
  next
    assume "\<exists>c \<in> set cs. Value (nfields c) > f \<and> m \<in> set (nodes (trimNodes c f))"
    then obtain c where c: "c \<in> set cs" "m \<in> set (nodes (trimNodes c f))" by blast
    from Node.IH[OF c] obtain n where "n \<in> set (nodes c)" "m = trimNodes n f" by blast
    with c(1) show ?thesis by auto
  qed
qed

lemma subnodes_trimNodes_Value:
  "m \<in> set (subnodes (trimNodes t f)) \<Longrightarrow> Value (nfields m) > f"
proof (induction t arbitrary: m)
  case (Node fs cs)
  from Node.prems obtain c where c: "c \<in> set cs" "Value (nfields c) > f"
      "m \<in> set (nodes (trimNodes c f))"
    by (auto simp: subnodes_def trimLoop_filter)
  show ?case
  proof (cases "m = trimNodes c f")
    case True
    with c(2) show ?thesis by (simp add: nfields_trimNodes)
  next
    case False
    with c(3) have "m \<in> set (subnodes (trimNodes c f))"
      by (subst (asm) nodes_unfold) (simp add: subnodes_def)
    with Node.IH[OF c(1)] show ?thesis by blast
  qed
qed

lemma ids_trimNodes_subset: "set (ids (trimNodes t f)) \<subseteq> set (ids t)"
proof
  fix i assume "i \<in> set (ids (trimNodes t f))"
  then obtain m where m: "m \<in> set (nodes (trimNodes t f))" "i = idn (nfields m)"
    by (auto simp: ids_def)
  from nodes_trimNodes_origin[OF m(1)] obtain n where "n \<in> set (nodes t)" "m = trimNodes n f"
    by blast
  with m(2) show "i \<in> set (ids t)" by (auto simp: ids_def nfields_trimNodes)
qed

lemma ids_Node: "ids (Node fs cs) = idn fs # concat (map ids cs)"
  unfolding ids_def by (simp add: map_concat comp_def)

lemma nodes_sub_ids: "n \<in> set (nodes t) \<Longrightarrow> set (ids n) \<subseteq> set (ids t)"
proof (induction t)
  case (Node fs cs)
  then show ?case by (fastforce simp: ids_Node)
qed

lemma distinct_concat_nth_disjoint:
  "distinct (concat xss) \<Longrightarrow> i < j \<Longrightarrow> j < length xss \<Longrightarrow> set (xss ! i) \<inter> set (xss ! j) = {}"
proof (induction xss arbitrary: i j)
  case Nil
  then show ?case by simp
next
  case (Cons xs xss)
  from Cons.prems obtain j' where j: "j = Suc j'" by (cases j) auto
  show ?case
  proof (cases i)
    case 0
    from Cons.prems j have "xss ! j' \<in> set xss" by simp
    with Cons.prems(1) 0 j show ?thesis by auto
  next
    case (Suc i')
    with Cons.IH[of i' j'] Cons.prems j show ?thesis by simp
  qed
qed

lemma distinct_concat_map_disjoint:
  assumes "distinct (concat (map g cs))" "c \<in> set cs" "d \<in> set cs" "c \<noteq> d"
  shows "set (g c) \<inter> set (g d) = {}"
proof -
  from assms(2,3) obtain i j where ij: "i < length cs" "j < length cs" "cs ! i = c" "cs ! j = d"
    by (metis in_set_conv_nth)
  with assms(4) have ne: "i \<noteq> j" by auto
  show ?thesis
  proof (cases "i < j")
    case True
    from distinct_concat_nth_disjoint[OF assms(1) True] ij show ?thesis by simp
  next
    case False
    with ne have "j < i" by simp
    from distinct_concat_nth_disjoint[OF assms(1) this] ij show ?thesis by auto
  qed
qed

lemma trimNodes_removed:
  "distinct (ids t) \<Longrightarrow> n \<in> set (subnodes t) \<Longrightarrow> Value (nfields n) \<le> f \<Longrightarrow>
   set (ids n) \<inter> set (ids (trimNodes t f)) = {}"
proof (induction t arbitrary: n)
  case (Node fs cs)
  from Node.prems(2) obtain c where c: "c \<in> set cs" "n \<in> set (nodes c)"
    by (auto simp: subnodes_def)
  have dc: "distinct (ids c)" using Node.prems(1) c(1) by (auto simp: ids_Node distinct_concat_iff)
  have sub: "set (ids n) \<subseteq> set (ids c)" using c(2) by (rule nodes_sub_ids)
  have root: "idn fs \<notin> set (ids c)" using Node.prems(1) c(1) by (auto simp: ids_Node)
  have other: "set (ids c) \<inter> set (ids d) = {}" if "d \<in> set cs" "d \<noteq> c" for d
  proof -
    from Node.prems(1) have "distinct (concat (map ids cs))" by (simp add: ids_Node)
    from distinct_concat_map_disjoint[OF this c(1) that(1)] that(2) show ?thesis by auto
  qed
  have other': "set (ids c) \<inter> (\<Union>d \<in> set cs - {c}. set (ids d)) = {}"
    using other by blast
  have rest: "set (ids (trimNodes (Node fs cs) f)) \<subseteq>
     insert (idn fs) (\<Union>d \<in> set cs - {c}. set (ids d)) \<union>
       (if Value (nfields c) > f then set (ids (trimNodes c f)) else {})"
    using ids_trimNodes_subset by (fastforce simp: ids_Node trimLoop_filter)
  have inner: "set (ids n) \<inter> (if Value (nfields c) > f then set (ids (trimNodes c f)) else {}) = {}"
  proof (cases "n = c")
    case True
    with Node.prems(3) have "\<not> Value (nfields c) > f" by (simp add: leD)
    then show ?thesis by simp
  next
    case False
    with c(2) have "n \<in> set (subnodes c)"
      by (subst (asm) nodes_unfold) (simp add: subnodes_def)
    from Node.IH[OF c(1) dc this Node.prems(3)] show ?thesis by simp
  qed
  define X where "X = (if Value (nfields c) > f then set (ids (trimNodes c f)) else {})"
  define Oth where "Oth = (\<Union>d \<in> set cs - {c}. set (ids d))"
  from rest have r: "set (ids (trimNodes (Node fs cs) f)) \<subseteq> insert (idn fs) Oth \<union> X"
    by (simp only: X_def Oth_def)
  from inner have i: "set (ids n) \<inter> X = {}" by (simp only: X_def)
  from other' have o: "set (ids c) \<inter> Oth = {}" by (simp only: Oth_def)
  from root o sub r i show ?case by blast
qed

text \<open>
  C5, as amended. In a tree whose ids are distinct, after trimming with floor \<open>f\<close> every
  node below the root has a value strictly greater than \<open>f\<close>, and for every node below the
  root whose value was at most \<open>f\<close> (a value equal to \<open>f\<close> included) no id of its subtree
  occurs in the result, whatever the values of its descendants. The root itself is kept
  with its fields, whatever its value.
\<close>

theorem trimNodes_floor:
  assumes "distinct (ids t)"
  shows "(\<forall>m \<in> set (subnodes (trimNodes t f)). Value (nfields m) > f) \<and>
         (\<forall>n \<in> set (subnodes t). Value (nfields n) \<le> f \<longrightarrow>
            set (ids n) \<inter> set (ids (trimNodes t f)) = {}) \<and>
         nfields (trimNodes t f) = nfields t"
  using assms subnodes_trimNodes_Value trimNodes_removed nfields_trimNodes by blast

text \<open>
  In the example the node \<open>a\<close> has value 1 and its child \<open>b\<close> has value 5: with floor 1
  both are gone, and the node \<open>c\<close> with value 4 stays.
\<close>

theorem trimNodes_floor_witness:
  "distinct (ids exampleTree) \<and>
   leaf 4 ''c'' 6 4 \<in> set (subnodes (trimNodes exampleTree 1)) \<and>
   Value (nfields (leaf 4 ''c'' 6 4)) > 1 \<and>
   leaf 3 ''b'' 6 5 \<in> set (subnodes exampleTree) \<and>
   Value (nfields (leaf 3 ''b'' 6 5)) > 1 \<and>
   set (ids (Children exampleTree ! 0)) \<inter> set (ids (trimNodes exampleTree 1)) = {} \<and>
   3 \<notin> set (ids (trimNodes exampleTree 1))"
  using trimNodes_floor[of exampleTree 1]
  by (simp add: exampleTree_def leaf_def ids_def subnodes_def)

text \<open>
  C5 as stated fails at the root: the tree built from no names has a root of value 0, and
  after trimming with floor 0 the root is still there.
\<close>

theorem trimNodes_root_counterexample:
  "parseTree ''main'' [] = Some emptyTree \<and>
   trimNodes emptyTree 0 \<in> set (nodes (trimNodes emptyTree 0)) \<and>
   \<not> Value (nfields (trimNodes emptyTree 0)) > 0"
  by (simp add: emptyTree_def parseTree_def constructTree_def newRoot_def rootElementId_def
        nodeFields.truncate_def)

text \<open>
  C8. Trimming leaves the fields of the node it is called on as they are, and every node of
  the trimmed tree is the trimmed form of a node of the original tree with the same fields
  (id, cluster, name, total, value, children ids): only the children sequences change, and
  no value or total is reduced.
\<close>

theorem trimNodes_frame:
  "nfields (trimNodes t f) = nfields t \<and>
   (\<forall>m \<in> set (nodes (trimNodes t f)).
      \<exists>n \<in> set (nodes t). m = trimNodes n f \<and> nfields m = nfields n)"
  using nodes_trimNodes_origin nfields_trimNodes by metis

theorem trimNodes_frame_witness:
  "nfields (trimNodes exampleTree 1) = nfields exampleTree \<and>
   Value (nfields (trimNodes exampleTree 1)) = 6 \<and>
   length (Children (trimNodes exampleTree 1)) = 1 \<and>
   (\<exists>n \<in> set (nodes exampleTree). leaf 4 ''c'' 6 4 = trimNodes n 1 \<and> nfields (leaf 4 ''c'' 6 4) = nfields n)"
  using trimNodes_frame[of exampleTree 1]
  by (simp add: exampleTree_def leaf_def)

text \<open>
  C10. Trimming leaves the \<^verbatim>\<open>childrenIds\<close> of every node as it was. So when the children
  ids of a node were the ids of its children, all different, every child that trimming
  removes leaves its id in \<^verbatim>\<open>childrenIds\<close> although no remaining child has that id.
\<close>

theorem trimNodes_keeps_childrenIds:
  "childrenIds (nfields (trimNodes t f)) = childrenIds (nfields t) \<and>
   (\<forall>m \<in> set (nodes (trimNodes t f)).
      \<exists>n \<in> set (nodes t). m = trimNodes n f \<and> childrenIds (nfields m) = childrenIds (nfields n)) \<and>
   (childrenIds (nfields t) = map (\<lambda>c. idn (nfields c)) (Children t) \<and>
    distinct (childrenIds (nfields t)) \<longrightarrow>
    (\<forall>c \<in> set (Children t). Value (nfields c) \<le> f \<longrightarrow>
       idn (nfields c) \<in> set (childrenIds (nfields (trimNodes t f))) \<and>
       idn (nfields c) \<notin> set (map (\<lambda>c. idn (nfields c)) (Children (trimNodes t f)))))"
proof (intro conjI)
  show "childrenIds (nfields (trimNodes t f)) = childrenIds (nfields t)"
    by (simp add: nfields_trimNodes)
  show "\<forall>m \<in> set (nodes (trimNodes t f)).
      \<exists>n \<in> set (nodes t). m = trimNodes n f \<and> childrenIds (nfields m) = childrenIds (nfields n)"
    using nodes_trimNodes_origin nfields_trimNodes by metis
  show "childrenIds (nfields t) = map (\<lambda>c. idn (nfields c)) (Children t) \<and>
    distinct (childrenIds (nfields t)) \<longrightarrow>
    (\<forall>c \<in> set (Children t). Value (nfields c) \<le> f \<longrightarrow>
       idn (nfields c) \<in> set (childrenIds (nfields (trimNodes t f))) \<and>
       idn (nfields c) \<notin> set (map (\<lambda>c. idn (nfields c)) (Children (trimNodes t f))))"
  proof (intro impI ballI, elim conjE)
    fix c
    assume par: "childrenIds (nfields t) = map (\<lambda>c. idn (nfields c)) (Children t)"
      and dist: "distinct (childrenIds (nfields t))"
      and c: "c \<in> set (Children t)" and v: "Value (nfields c) \<le> f"
    from dist par have inj: "inj_on (\<lambda>c. idn (nfields c)) (set (Children t))"
      by (simp add: distinct_map)
    have "idn (nfields c) \<in> set (childrenIds (nfields (trimNodes t f)))"
      using par c by (simp add: nfields_trimNodes)
    moreover have "idn (nfields c) \<notin> set (map (\<lambda>c. idn (nfields c)) (Children (trimNodes t f)))"
    proof
      assume "idn (nfields c) \<in> set (map (\<lambda>c. idn (nfields c)) (Children (trimNodes t f)))"
      then obtain d where d: "d \<in> set (Children t)" "Value (nfields d) > f"
          "idn (nfields d) = idn (nfields c)"
        by (auto simp: Children_trimNodes nfields_trimNodes)
      from inj d(1,3) c have "d = c" by (auto dest: inj_onD)
      with d(2) v show False by (simp add: leD)
    qed
    ultimately show "idn (nfields c) \<in> set (childrenIds (nfields (trimNodes t f))) \<and>
       idn (nfields c) \<notin> set (map (\<lambda>c. idn (nfields c)) (Children (trimNodes t f)))" ..
  qed
qed

theorem trimNodes_keeps_childrenIds_witness:
  "childrenIds (nfields (trimNodes exampleTree 1)) = [2, 4] \<and>
   map (\<lambda>c. idn (nfields c)) (Children (trimNodes exampleTree 1)) = [4] \<and>
   2 \<in> set (childrenIds (nfields (trimNodes exampleTree 1))) \<and>
   2 \<notin> set (map (\<lambda>c. idn (nfields c)) (Children (trimNodes exampleTree 1)))"
  using trimNodes_keeps_childrenIds[of exampleTree 1]
  by (simp add: exampleTree_def leaf_def)

section \<open>Properties of convertToClickhouse\<close>

lemma length_convert:
  "length (convertToClickhouse t ts) = 2 * length (nodes t) - 1"
  "length (convertLoop cs ts) = 2 * length (concat (map nodes cs))"
proof (induction t ts and cs ts rule: convertToClickhouse_convertLoop.induct)
  case (1 f cs timestamp)
  then show ?case by simp
next
  case (2 timestamp)
  then show ?case by simp
next
  case (3 n ns timestamp)
  have "length (nodes n) > 0" by (cases n) simp
  with 3 show ?case by simp
qed

text \<open>
  C2. Flattening should give exactly one row per node. For a root with a single child the
  result has three rows: the loop appends the row of the child and then the result of the
  recursive call, which starts with the row of the child again.
\<close>

theorem convertToClickhouse_child_twice:
  "convertToClickhouse (Node r [Node c []]) ts = [row r ts, row c ts, row c ts]"
  by simp

section \<open>Properties of getList\<close>

lemma getList_retry_step:
  "tries \<le> 3 \<Longrightarrow> getList_retry decode net m tries =
     (if attemptFails decode m (net tries)
      then getList_retry decode net (metricsAfter decode m (net tries)) (tries + 1)
      else (metricsAfter decode m (net tries), tries))"
  by (subst getList_retry.simps)
     (auto simp: attemptFails_def metricsAfter_def split: attempt.splits prod.splits)

lemma getList_retry_exceeded: "getList_retry decode net m 4 = ([], 3)"
  by (subst getList_retry.simps) simp

lemma metricsBefore_2: "metricsBefore decode net 2 = metricsAfter decode [] (net 1)"
  by (simp add: numeral_2_eq_2)

lemma metricsBefore_3:
  "metricsBefore decode net 3 = metricsAfter decode (metricsAfter decode [] (net 1)) (net 2)"
  by (simp add: numeral_3_eq_3 numeral_2_eq_2)

lemma metricsBefore_1: "metricsBefore decode net 1 = []"
  by simp

lemma getList_cases:
  "getList decode net =
    (if \<not> attemptFails decode (metricsBefore decode net 1) (net 1)
       then (metricsAfter decode (metricsBefore decode net 1) (net 1), 1)
     else if \<not> attemptFails decode (metricsBefore decode net 2) (net 2)
       then (metricsAfter decode (metricsBefore decode net 2) (net 2), 2)
     else if \<not> attemptFails decode (metricsBefore decode net 3) (net 3)
       then (metricsAfter decode (metricsBefore decode net 3) (net 3), 3)
     else ([], 3))"
proof -
  have s1: "getList_retry decode net m 1 =
     (if attemptFails decode m (net 1)
      then getList_retry decode net (metricsAfter decode m (net 1)) 2
      else (metricsAfter decode m (net 1), 1))" for m
    by (subst getList_retry_step) (auto simp: numeral_2_eq_2)
  have s2: "getList_retry decode net m 2 =
     (if attemptFails decode m (net 2)
      then getList_retry decode net (metricsAfter decode m (net 2)) 3
      else (metricsAfter decode m (net 2), 2))" for m
    by (subst getList_retry_step) (auto simp: numeral_3_eq_3 numeral_2_eq_2)
  have s3: "getList_retry decode net m 3 =
     (if attemptFails decode m (net 3)
      then getList_retry decode net (metricsAfter decode m (net 3)) 4
      else (metricsAfter decode m (net 3), 3))" for m
    by (subst getList_retry_step) (auto simp: numeral_3_eq_3 eval_nat_numeral)
  show ?thesis
    unfolding getList_def metricsBefore_1 metricsBefore_2 metricsBefore_3
    by (simp only: s1 s2 s3 getList_retry_exceeded if_not_P if_P split: if_splits) auto
qed

lemma attemptFails_withStatus: "attemptFails decode m (withStatus g net k) = attemptFails decode m (net k)"
  by (simp add: attemptFails_def withStatus_def split: attempt.splits)

lemma metricsAfter_withStatus: "metricsAfter decode m (withStatus g net k) = metricsAfter decode m (net k)"
  by (simp add: metricsAfter_def withStatus_def split: attempt.splits)

lemma metricsBefore_withStatus: "metricsBefore decode (withStatus g net) k = metricsBefore decode net k"
  by (induction k) (auto simp: metricsAfter_withStatus)

lemma getList_withStatus: "getList decode (withStatus g net) = getList decode net"
  by (simp only: getList_cases attemptFails_withStatus metricsAfter_withStatus metricsBefore_withStatus)

text \<open>
  C7, as amended. getList sends at most three requests. A try fails when the request fails
  at transport or the body is not decoded; when all three tries fail the result is the
  empty list; when try \<open>k\<close> is the first that does not fail, the result is what was decoded
  from its body and \<open>k\<close> requests were sent. The status code of a response is never
  looked at: replacing the status codes changes nothing.
\<close>

theorem getList_three_tries:
  "snd (getList decode net) \<le> 3 \<and>
   ((\<forall>j \<in> {1, 2, 3}. attemptFails decode (metricsBefore decode net j) (net j)) \<longrightarrow>
      getList decode net = ([], 3)) \<and>
   (\<forall>k \<in> {1, 2, 3}.
      (\<forall>j \<in> {1..<k}. attemptFails decode (metricsBefore decode net j) (net j)) \<and>
      \<not> attemptFails decode (metricsBefore decode net k) (net k) \<longrightarrow>
      getList decode net = (metricsAfter decode (metricsBefore decode net k) (net k), k)) \<and>
   getList decode (withStatus g net) = getList decode net"
proof (intro conjI)
  show "snd (getList decode net) \<le> 3" by (simp add: getList_cases)
  show "(\<forall>j \<in> {1, 2, 3}. attemptFails decode (metricsBefore decode net j) (net j)) \<longrightarrow>
      getList decode net = ([], 3)"
    by (subst getList_cases) simp
  show "getList decode (withStatus g net) = getList decode net" by (rule getList_withStatus)
  have r12: "{1..<2::nat} = {1}" by auto
  have r13: "{1..<3::nat} = {1, 2}" by auto
  show "\<forall>k \<in> {1, 2, 3}.
      (\<forall>j \<in> {1..<k}. attemptFails decode (metricsBefore decode net j) (net j)) \<and>
      \<not> attemptFails decode (metricsBefore decode net k) (net k) \<longrightarrow>
      getList decode net = (metricsAfter decode (metricsBefore decode net k) (net k), k)"
    by (subst getList_cases) (simp add: r12 r13 del: metricsBefore.simps)
qed

text \<open>
  A host whose three tries fail (transport, malformed body, transport), and a host whose
  first try fails at transport and whose second try gives a listing.
\<close>

theorem getList_three_tries_witness:
  "getList decodeOpt netDown = ([], 3) \<and> snd (getList decodeOpt netDown) \<le> 3 \<and>
   getList decodeOpt netRetry = ([''x.y''], 2)"
  using getList_three_tries[of decodeOpt netDown id] getList_three_tries[of decodeOpt netRetry id]
  by (simp add: attemptFails_def metricsAfter_def netDown_def netRetry_def decodeOpt_def
        numeral_2_eq_2 numeral_3_eq_3)

text \<open>
  C7 as stated fails for a response with status 500 whose body is a listing: it is not
  tried again, and its names are returned after one request.
\<close>

theorem getList_non2xx_counterexample:
  "getList decodeOpt net500 = ([''a.b''], 1)"
  by (simp add: getList_cases attemptFails_def metricsAfter_def net500_def decodeOpt_def)

section \<open>Properties of getHandler\<close>

text \<open>
  C1. A request to the query endpoint with an empty \<^verbatim>\<open>ts\<close> (or an empty \<^verbatim>\<open>cluster\<close>)
  should be answered with status 400 while the service keeps running. The handler calls
  \<^verbatim>\<open>logger.Fatal\<close> first, which ends the process with exit status 1, so the
  \<^verbatim>\<open>http.Error\<close> with status 400 written after it never runs. Evaluated on the
  requests \<^verbatim>\<open>/get?cluster=main\<close> and \<^verbatim>\<open>/get?ts=1500000000\<close>.
\<close>

theorem getHandler_missing_ts_exits:
  "getHandler [] ''main'' query = [LogFatal ''You must specify cluster and ts'', OsExit 1] \<and>
   getHandler ''1500000000'' [] query = [LogFatal ''You must specify cluster and ts'', OsExit 1] \<and>
   HttpError StatusBadRequest \<notin> set (getHandler [] ''main'' query)"
  by (simp add: getHandler_def logger_Fatal_def)

section \<open>Lists of optional results\<close>

lemma mapM_None_iff: "mapM f xs = None \<longleftrightarrow> (\<exists>x \<in> set xs. f x = None)"
  by (induction xs) (auto split: option.splits)

lemma mapM_all_Some:
  "\<forall>x \<in> set xs. f x \<noteq> None \<Longrightarrow> mapM f xs = Some (map (\<lambda>x. the (f x)) xs)"
  by (induction xs) auto

lemma mapM_Some_iff:
  "mapM f xs = Some ys \<longleftrightarrow> (\<forall>x \<in> set xs. f x \<noteq> None) \<and> ys = map (\<lambda>x. the (f x)) xs"
proof (cases "\<exists>x \<in> set xs. f x = None")
  case True
  then have "mapM f xs = None" by (simp add: mapM_None_iff)
  with True show ?thesis by auto
next
  case False
  then have "mapM f xs = Some (map (\<lambda>x. the (f x)) xs)" by (intro mapM_all_Some) simp
  with False show ?thesis by auto
qed

lemma mapM_cong: "(\<And>x. x \<in> set xs \<Longrightarrow> f x = g x) \<Longrightarrow> mapM f xs = mapM g xs"
  by (induction xs) (auto split: option.splits)

section \<open>Reaching the addresses of a store\<close>

lemma paths_of_Suc_Some:
  "paths_of (Suc n) h pre a = Some aps \<longleftrightarrow>
     a < length h \<and> (\<forall>c \<in> set (ChildrenPtr (h ! a)). paths_of n h (pre @ [Name (h ! a)]) c \<noteq> None) \<and>
     aps = (a, pre @ [Name (h ! a)]) #
           concat (map (\<lambda>c. the (paths_of n h (pre @ [Name (h ! a)]) c)) (ChildrenPtr (h ! a)))"
proof (cases "mapM (paths_of n h (pre @ [Name (h ! a)])) (ChildrenPtr (h ! a))")
  case None
  moreover note None[unfolded mapM_None_iff]
  ultimately show ?thesis by (auto simp: paths_of.simps(2))
next
  case (Some xss)
  moreover note Some[unfolded mapM_Some_iff]
  ultimately show ?thesis by (auto simp: paths_of.simps(2))
qed

lemma paths_of_frame:
  assumes "length h' = length h"
    and "\<And>a. a < length h \<Longrightarrow> ChildrenPtr (h' ! a) = ChildrenPtr (h ! a) \<and> Name (h' ! a) = Name (h ! a)"
  shows "paths_of n h' pre a = paths_of n h pre a"
proof (induction n arbitrary: pre a)
  case 0
  show ?case by simp
next
  case (Suc n)
  show ?case
  proof (cases "a < length h")
    case True
    have "mapM (paths_of n h' (pre @ [Name (h ! a)])) (ChildrenPtr (h ! a)) =
          mapM (paths_of n h (pre @ [Name (h ! a)])) (ChildrenPtr (h ! a))"
      by (rule mapM_cong) (simp add: Suc.IH)
    with True assms(1) assms(2)[OF True] show ?thesis
      by (simp add: paths_of.simps(2) split: option.splits)
  next
    case False
    with assms(1) show ?thesis by (simp add: paths_of.simps(2))
  qed
qed

lemma mset_concat_grow:
  assumes "\<And>c. c \<in> set cs \<Longrightarrow> mset (g' c) = mset (g c) + F (mset (g c))"
    and "\<And>A B. F (A + B) = F A + F B" and "F {#} = {#}"
  shows "mset (concat (map g' cs)) = mset (concat (map g cs)) + F (mset (concat (map g cs)))"
  using assms(1) by (induction cs) (simp_all add: assms(2,3))

lemma paths_of_alloc:
  assumes p: "p < length h"
    and h': "h' = h[p := q] @ [nl]"
    and q: "Name q = Name (h ! p)" "ChildrenPtr q = ChildrenPtr (h ! p) @ [length h]"
    and nl: "ChildrenPtr nl = []"
  shows "paths_of n h pre a = Some aps \<Longrightarrow>
     \<exists>aps'. paths_of (Suc n) h' pre a = Some aps' \<and>
       mset aps' = mset aps +
         image_mset (\<lambda>x. (length h, snd x @ [Name nl])) (filter_mset (\<lambda>x. fst x = p) (mset aps))"
proof (induction n arbitrary: pre a aps)
  case 0
  then show ?case by simp
next
  case (Suc n)
  define F where "F = (\<lambda>M :: (addr \<times> string list) multiset.
      image_mset (\<lambda>x. (length h, snd x @ [Name nl])) (filter_mset (\<lambda>x. fst x = p) M))"
  define pre' where "pre' = pre @ [Name (h ! a)]"
  define cs where "cs = ChildrenPtr (h ! a)"
  from Suc.prems have a: "a < length h"
    and ch: "\<forall>c \<in> set cs. paths_of n h pre' c \<noteq> None"
    and aps: "aps = (a, pre') # concat (map (\<lambda>c. the (paths_of n h pre' c)) cs)"
    unfolding paths_of_Suc_Some pre'_def cs_def by blast+
  have nm: "Name (h' ! a) = Name (h ! a)"
    using a p q(1) by (cases "a = p") (simp_all add: h' nth_append)
  have kids: "ChildrenPtr (h' ! a) = cs @ (if a = p then [length h] else [])"
    using a p q(2) by (cases "a = p") (simp_all add: h' nth_append cs_def)
  have len: "length h' = Suc (length h)" by (simp add: h')
  have IH: "paths_of (Suc n) h' pre' c \<noteq> None \<and>
      mset (the (paths_of (Suc n) h' pre' c)) =
        mset (the (paths_of n h pre' c)) + F (mset (the (paths_of n h pre' c)))"
    if "c \<in> set cs" for c
  proof -
    from ch that obtain x where x: "paths_of n h pre' c = Some x" by auto
    from Suc.IH[OF x] show ?thesis by (auto simp: x F_def)
  qed
  have newleaf: "paths_of (Suc n) h' pre' (length h) = Some [(length h, pre' @ [Name nl])]"
  proof -
    have "h' ! length h = nl" by (simp add: h' nth_append)
    then show ?thesis by (simp add: paths_of.simps(2) len nl)
  qed
  have all: "\<forall>c \<in> set (ChildrenPtr (h' ! a)). paths_of (Suc n) h' (pre @ [Name (h' ! a)]) c \<noteq> None"
    using IH newleaf by (auto simp: kids nm pre'_def)
  define aps' where "aps' = (a, pre') #
     concat (map (\<lambda>c. the (paths_of (Suc n) h' pre' c)) (ChildrenPtr (h' ! a)))"
  have 1: "paths_of (Suc (Suc n)) h' pre a = Some aps'"
    unfolding paths_of_Suc_Some using a all by (simp add: len aps'_def nm pre'_def)
  have Fadd: "F (A + B) = F A + F B" for A B by (simp add: F_def)
  have F0: "F {#} = {#}" by (simp add: F_def)
  have body: "mset (concat (map (\<lambda>c. the (paths_of (Suc n) h' pre' c)) cs)) =
      mset (concat (map (\<lambda>c. the (paths_of n h pre' c)) cs)) +
      F (mset (concat (map (\<lambda>c. the (paths_of n h pre' c)) cs)))"
    by (rule mset_concat_grow) (simp_all add: IH Fadd F0)
  have 2: "mset aps' = mset aps + F (mset aps)"
  proof (cases "a = p")
    case True
    have k: "ChildrenPtr (h' ! a) = cs @ [length h]" using kids True by simp
    have l: "mset aps' = add_mset (a, pre')
        (mset (concat (map (\<lambda>c. the (paths_of (Suc n) h' pre' c)) cs)) +
         {#(length h, pre' @ [Name nl])#})"
      unfolding aps'_def k by (simp add: newleaf)
    have "F {#(a, pre')#} = {#(length h, pre' @ [Name nl])#}"
      by (simp add: F_def True)
    then have r: "F (mset aps) = {#(length h, pre' @ [Name nl])#} +
        F (mset (concat (map (\<lambda>c. the (paths_of n h pre' c)) cs)))"
      unfolding aps using Fadd[of "{#(a, pre')#}"] by simp
    show ?thesis unfolding l r body unfolding aps by simp
  next
    case False
    have k: "ChildrenPtr (h' ! a) = cs" using kids False by simp
    have l: "mset aps' = add_mset (a, pre')
        (mset (concat (map (\<lambda>c. the (paths_of (Suc n) h' pre' c)) cs)))"
      unfolding aps'_def k by simp
    have "F {#(a, pre')#} = {#}"
      by (simp add: F_def False)
    then have r: "F (mset aps) = F (mset (concat (map (\<lambda>c. the (paths_of n h pre' c)) cs)))"
      unfolding aps by (simp add: F_def False)
    show ?thesis unfolding l r body unfolding aps by simp
  qed
  from 1 2 show ?case by (auto simp: F_def)
qed

lemma image_filter_fst_count:
  "image_mset (\<lambda>x. n) (filter_mset (\<lambda>x. fst x = p) M) = replicate_mset (count (image_mset fst M) p) n"
  by (induction M) auto

section \<open>Splitting names\<close>

lemma Split_not_Nil: "Split xs sep \<noteq> []"
  by (induction xs) (auto split: list.splits)

lemma Split_append:
  "Split (xs @ sep # ys) sep = Split xs sep @ Split ys sep"
proof (induction xs)
  case Nil
  show ?case by simp
next
  case (Cons x xs)
  obtain p ps where "Split xs sep = p # ps" using Split_not_Nil[of xs sep] by (cases "Split xs sep") auto
  with Cons show ?case by simp
qed

lemma Split_no_sep: "sep \<notin> set xs \<Longrightarrow> Split xs sep = [xs]"
  by (induction xs) auto

lemma Split_parts_no_sep: "p \<in> set (Split xs sep) \<Longrightarrow> sep \<notin> set p"
proof (induction xs arbitrary: p)
  case Nil
  then show ?case by simp
next
  case (Cons x xs)
  obtain q qs where q: "Split xs sep = q # qs" using Split_not_Nil[of xs sep] by (cases "Split xs sep") auto
  show ?case
  proof (cases "x = sep")
    case True
    with Cons show ?thesis by auto
  next
    case False
    with Cons.prems q have "p = x # q \<or> p \<in> set qs" by auto
    with Cons.IH q False show ?thesis by auto
  qed
qed

lemma partsOf_Nil: "partsOf [] = []"
  by (simp add: partsOf_def)

lemma partsOf_snoc:
  "part \<noteq> [] \<Longrightarrow> CHR ''.'' \<notin> set part \<Longrightarrow> partsOf (sf @ ''.'' @ part) = partsOf sf @ [part]"
  by (simp add: partsOf_def Split_append Split_no_sep)

lemma keysOf_longer: "k \<in> set (keysOf sf parts) \<Longrightarrow> length sf < length k"
proof (induction parts arbitrary: sf)
  case Nil
  then show ?case by simp
next
  case (Cons part parts)
  show ?case
  proof (cases "part = []")
    case True
    with Cons show ?thesis by simp
  next
    case False
    with Cons.prems have "k = sf @ ''.'' @ part \<or> k \<in> set (keysOf (sf @ ''.'' @ part) parts)"
      by simp
    then show ?thesis
    proof
      assume "k = sf @ ''.'' @ part" then show ?thesis by simp
    next
      assume "k \<in> set (keysOf (sf @ ''.'' @ part) parts)"
      from Cons.IH[OF this] show ?thesis by simp
    qed
  qed
qed

lemma distinct_keysOf: "distinct (keysOf sf parts)"
proof (induction parts arbitrary: sf)
  case Nil
  show ?case by simp
next
  case (Cons part parts)
  have "sf @ ''.'' @ part \<notin> set (keysOf (sf @ ''.'' @ part) parts)"
    using keysOf_longer[of "sf @ ''.'' @ part" "sf @ ''.'' @ part" parts] by auto
  with Cons show ?case by simp
qed

lemma count_metricKeys_le: "count_list (metricKeys m) k \<le> 1"
proof -
  have "distinct (metricKeys m)" by (simp add: metricKeys_def distinct_keysOf)
  then show ?thesis
    by (simp add: distinct_count_atmost_1 flip: count_mset)
qed

lemma count_allKeys_le: "count_list (allKeys ms) k \<le> length ms"
proof (induction ms)
  case Nil
  show ?case by (simp add: allKeys_def)
next
  case (Cons m ms)
  have "count_list (allKeys (m # ms)) k = count_list (metricKeys m) k + count_list (allKeys ms) k"
    by (simp add: allKeys_def count_list_append)
  with Cons count_metricKeys_le[of m k] show ?case by simp
qed


section \<open>The invariant of constructTree\<close>

lemma ctInv_init:
  assumes "ChildrenPtr r0 = []" "childrenIds r0 = []"
  shows "ctInv r0 tot \<lparr>heap = [r0], seen = Map.empty, cnt = rootElementId + 1\<rparr> []"
  using assms
  by (simp add: ctInv_def rootOk_def seenOk_def kidsOk_def pathsOk_def rootElementId_def
        paths_of.simps(2) numeral_2_eq_2[symmetric])

lemma visitPart_hit:
  assumes inv: "ctInv r0 tot s vs" and part: "part \<noteq> []"
    and hit: "seen s (sf @ ''.'' @ part) = Some n"
  shows "\<exists>s'. visitPart tot 0 (s, sf) part = Some (s', sf @ ''.'' @ part) \<and>
              ctInv r0 tot s' (vs @ [sf @ ''.'' @ part])"
proof -
  define key where "key = sf @ ''.'' @ part"
  define h where "h = heap s"
  define h' where "h' = h[n := (h ! n)\<lparr>Value := Value (h ! n) + 1\<rparr>]"
  define s' where "s' = s\<lparr>heap := h'\<rparr>"
  from inv have root: "rootOk r0 h" and c: "cnt s = of_nat (length h + 1)"
    and sk: "seenOk r0 tot s vs" and kids: "kidsOk h" and paths: "pathsOk r0 s"
    by (simp_all add: ctInv_def h_def)
  from sk hit have n: "0 < n" "n < length h" and kv: "key \<in> set vs"
    by (auto simp: seenOk_def h_def key_def)
  have len: "length h' = length h" by (simp add: h'_def)
  have frame: "ChildrenPtr (h' ! a) = ChildrenPtr (h ! a) \<and> Name (h' ! a) = Name (h ! a) \<and>
      childrenIds (h' ! a) = childrenIds (h ! a) \<and> Total (h' ! a) = Total (h ! a) \<and>
      idn (h' ! a) = idn (h ! a) \<and> cluster (h' ! a) = cluster (h ! a)" if "a < length h" for a
    using that by (cases "a = n") (simp_all add: h'_def)
  have val: "Value (h' ! a) = (if a = n then Value (h ! n) + 1 else Value (h ! a))"
    if "a < length h" for a
    using that by (simp add: h'_def)
  have step: "visitPart tot 0 (s, sf) part = Some (s', key)"
    using part hit by (simp add: visitPart_def Let_def s'_def h'_def h_def key_def)
  have heap': "heap s' = h'" and seen': "seen s' = seen s" and cnt': "cnt s' = cnt s"
    by (simp_all add: s'_def)
  have 1: "rootOk r0 h'"
    using root n frame[of 0] val[of 0] by (simp add: rootOk_def len)
  have 2: "cnt s' = of_nat (length h' + 1)" by (simp add: cnt' c len)
  have 3: "seenOk r0 tot s' (vs @ [key])"
    unfolding seenOk_def heap' seen'
  proof (intro conjI allI impI)
    show "dom (seen s) = set (vs @ [key])" using sk kv by (auto simp: seenOk_def)
  next
    fix k a assume ka: "seen s k = Some a"
    with sk have a: "0 < a" "a < length h" "Value (h ! a) = of_nat (count_list vs k)"
        "Total (h ! a) = tot" "idn (h ! a) = of_nat (a + 1)" "cluster (h ! a) = cluster r0"
      by (auto simp: seenOk_def h_def)
    have eq: "a = n \<longleftrightarrow> k = key"
      using sk ka hit by (auto simp: seenOk_def key_def)
    show "0 < a" by fact
    show "a < length h'" using a len by simp
    show "Value (h' ! a) = of_nat (count_list (vs @ [key]) k)"
      using a eq val[of a] by (auto simp: count_list_append)
    show "Total (h' ! a) = tot" using a frame[of a] by simp
    show "idn (h' ! a) = of_nat (a + 1)" using a frame[of a] by simp
    show "cluster (h' ! a) = cluster r0" using a frame[of a] by simp
  next
    fix k k' a assume "seen s k = Some a" "seen s k' = Some a"
    with sk show "k = k'" unfolding seenOk_def by blast
  qed
  have 4: "kidsOk h'"
    using kids frame by (simp add: kidsOk_def len)
  have 5: "pathsOk r0 s'"
  proof -
    have "paths_of m h' pre a = paths_of m h pre a" for m pre a
      by (rule paths_of_frame) (simp_all add: len frame)
    with paths show ?thesis by (simp add: pathsOk_def heap' seen' len h_def)
  qed
  from 1 2 3 4 5 have "ctInv r0 tot s' (vs @ [key])" by (simp add: ctInv_def heap')
  with step show ?thesis by (auto simp: key_def)
qed

lemma visitPart_miss:
  assumes inv: "ctInv r0 tot s vs" and part: "part \<noteq> []" "CHR ''.'' \<notin> set part"
    and miss: "seen s (sf @ ''.'' @ part) = None"
    and par: "sf = [] \<or> sf \<in> set vs"
  shows "\<exists>s'. visitPart tot 0 (s, sf) part = Some (s', sf @ ''.'' @ part) \<and>
              ctInv r0 tot s' (vs @ [sf @ ''.'' @ part])"
proof -
  define key where "key = sf @ ''.'' @ part"
  define h where "h = heap s"
  define n where "n = length h"
  from inv have root: "rootOk r0 h" and c: "cnt s = of_nat (length h + 1)"
    and sk: "seenOk r0 tot s vs" and kids: "kidsOk h" and paths: "pathsOk r0 s"
    by (simp_all add: ctInv_def h_def)
  from sk miss have kv: "key \<notin> set vs" by (auto simp: seenOk_def key_def)
  define p where "p = (if sf = [] then 0 else the (seen s sf))"
  have "sf \<in> dom (seen s)" if "sf \<noteq> []"
    using that par sk by (simp add: seenOk_def)
  then have "\<exists>y. seen s sf = Some y" if "sf \<noteq> []" using that by blast
  then have psome: "(if sf \<noteq> [] then seen s sf else Some 0) = Some p"
    by (auto simp: p_def)
  have p: "p < n" and pcl: "cluster (h ! p) = cluster r0"
    and p0: "sf = [] \<Longrightarrow> p = 0" and pn: "sf \<noteq> [] \<Longrightarrow> seen s sf = Some p \<and> 0 < p"
    using par sk root psome by (auto simp: seenOk_def rootOk_def h_def n_def split: if_splits)
  define data :: heapNode where "data = \<lparr>idn = cnt s, cluster = cluster (h ! p), Name = part,
      Total = tot, Value = 1, childrenIds = [], ChildrenPtr = [], parent = Some p\<rparr>"
  define q where "q = (h ! p)\<lparr>childrenIds := childrenIds (h ! p) @ [cnt s],
      ChildrenPtr := ChildrenPtr (h ! p) @ [n]\<rparr>"
  define h' where "h' = h[p := q] @ [data]"
  define s' where "s' = s\<lparr>heap := h', seen := (seen s)(key \<mapsto> n), cnt := cnt s + 1\<rparr>"
  have step: "visitPart tot 0 (s, sf) part = Some (s', key)"
    using part(1) miss psome
    by (simp add: visitPart_def Let_def s'_def h'_def q_def data_def h_def key_def n_def)
  have heap': "heap s' = h'" and seen': "seen s' = (seen s)(key \<mapsto> n)" and cnt': "cnt s' = cnt s + 1"
    by (simp_all add: s'_def)
  have len: "length h' = Suc n" by (simp add: h'_def n_def)
  have npos: "0 < n" using root by (simp add: rootOk_def n_def)
  have cn: "cnt s = of_nat (n + 1)" using c by (simp add: n_def)
  have atn: "h' ! n = data" by (simp add: h'_def n_def nth_append)
  have atp: "h' ! p = q" using p by (simp add: h'_def n_def nth_append)
  have other: "h' ! a = h ! a" if "a < n" "a \<noteq> p" for a
    using that by (simp add: h'_def n_def nth_append)
  have scal: "idn (h' ! a) = idn (h ! a) \<and> cluster (h' ! a) = cluster (h ! a) \<and>
      Name (h' ! a) = Name (h ! a) \<and> Total (h' ! a) = Total (h ! a) \<and>
      Value (h' ! a) = Value (h ! a)" if "a < n" for a
    using that atp other[of a] by (cases "a = p") (simp_all add: q_def)
  have 1: "rootOk r0 h'"
    using root scal[OF npos] by (simp add: rootOk_def len)
  have 2: "cnt s' = of_nat (length h' + 1)" by (simp add: cnt' cn len)
  have 3: "seenOk r0 tot s' (vs @ [key])"
    unfolding seenOk_def heap' seen'
  proof (intro conjI)
    show "dom ((seen s)(key \<mapsto> n)) = set (vs @ [key])" using sk by (auto simp: seenOk_def)
  next
    have "0 < a \<and> a < length h' \<and> Value (h' ! a) = of_nat (count_list (vs @ [key]) k) \<and>
        Total (h' ! a) = tot \<and> idn (h' ! a) = of_nat (a + 1) \<and> cluster (h' ! a) = cluster r0"
      if ka: "((seen s)(key \<mapsto> n)) k = Some a" for k a
    proof (cases "k = key")
      case True
      with ka have "a = n" by simp
      moreover have "count_list vs key = 0" using kv by (simp add: count_list_0_iff)
      ultimately show ?thesis
        using True npos pcl by (simp add: len atn data_def cn count_list_append)
    next
      case False
      with ka have old: "seen s k = Some a" by simp
      with sk have a: "0 < a" "a < n" "Value (h ! a) = of_nat (count_list vs k)"
          "Total (h ! a) = tot" "idn (h ! a) = of_nat (a + 1)" "cluster (h ! a) = cluster r0"
        by (auto simp: seenOk_def h_def n_def)
      with scal[of a] False show ?thesis by (simp add: len count_list_append)
    qed
    then show "\<forall>k a. ((seen s)(key \<mapsto> n)) k = Some a \<longrightarrow>
        0 < a \<and> a < length h' \<and> Value (h' ! a) = of_nat (count_list (vs @ [key]) k) \<and>
        Total (h' ! a) = tot \<and> idn (h' ! a) = of_nat (a + 1) \<and> cluster (h' ! a) = cluster r0"
      by blast
  next
    have old: "a < n" if "seen s k = Some a" for k a
      using that sk by (auto simp: seenOk_def h_def n_def)
    have inj: "k = k'" if "seen s k = Some a" "seen s k' = Some a" for k k' a
      using that sk unfolding seenOk_def by blast
    show "\<forall>k k' a. ((seen s)(key \<mapsto> n)) k = Some a \<longrightarrow>
        ((seen s)(key \<mapsto> n)) k' = Some a \<longrightarrow> k = k'"
      using old inj by (auto split: if_splits)
  qed
  have 4: "kidsOk h'"
    unfolding kidsOk_def len
  proof (intro allI impI)
    fix a assume a: "a < Suc n"
    consider "a = n" | "a = p" | "a < n" "a \<noteq> p" using a by force
    then show "childrenIds (h' ! a) = map (\<lambda>c. of_nat (c + 1)) (ChildrenPtr (h' ! a)) \<and>
        (\<forall>c \<in> set (ChildrenPtr (h' ! a)). 0 < c \<and> c < Suc n)"
    proof cases
      case 1
      then show ?thesis by (simp add: atn data_def)
    next
      case 2
      from kids p have "childrenIds (h ! p) = map (\<lambda>c. of_nat (c + 1)) (ChildrenPtr (h ! p))"
        and "\<forall>c \<in> set (ChildrenPtr (h ! p)). 0 < c \<and> c < n"
        by (simp_all add: kidsOk_def n_def)
      with 2 npos show ?thesis
        by (auto simp: atp q_def cn)
    next
      case 3
      from kids 3(1) have "childrenIds (h ! a) = map (\<lambda>c. of_nat (c + 1)) (ChildrenPtr (h ! a))"
        and "\<forall>c \<in> set (ChildrenPtr (h ! a)). 0 < c \<and> c < n"
        by (simp_all add: kidsOk_def n_def)
      with other[OF 3] show ?thesis by auto
    qed
  qed
  have 5: "pathsOk r0 s'"
  proof -
    from paths obtain aps where aps: "paths_of n h [] 0 = Some aps"
      and A: "image_mset fst (mset aps) = mset [0..<n]"
      and B: "\<forall>x \<in> set aps. (fst x = 0 \<longrightarrow> snd x = [Name r0]) \<and>
           (0 < fst x \<longrightarrow> (\<exists>k. seen s k = Some (fst x) \<and> snd x = Name r0 # partsOf k))"
      by (auto simp: pathsOk_def h_def n_def)
    have "\<exists>aps'. paths_of (Suc n) h' [] 0 = Some aps' \<and>
       mset aps' = mset aps +
         image_mset (\<lambda>x. (length h, snd x @ [Name data])) (filter_mset (\<lambda>x. fst x = p) (mset aps))"
      by (rule paths_of_alloc[where q = q and nl = data, OF _ _ _ _ _ aps])
         (use p in \<open>simp_all add: h'_def q_def data_def n_def\<close>)
    then obtain aps' where aps': "paths_of (Suc n) h' [] 0 = Some aps'"
      and m: "mset aps' = mset aps +
         image_mset (\<lambda>x. (n, snd x @ [part])) (filter_mset (\<lambda>x. fst x = p) (mset aps))"
      by (auto simp: data_def n_def)
    have cntp: "count (mset [0..<n]) p = 1"
      using p distinct_count_atmost_1[of "[0..<n]"] by simp
    have A': "image_mset fst (mset aps') = mset [0..<Suc n]"
      unfolding m using p
      by (simp add: image_mset.compositionality comp_def image_filter_fst_count A)
    have B': "(fst x = 0 \<longrightarrow> snd x = [Name r0]) \<and>
           (0 < fst x \<longrightarrow> (\<exists>k. ((seen s)(key \<mapsto> n)) k = Some (fst x) \<and> snd x = Name r0 # partsOf k))"
      if "x \<in> set aps'" for x
    proof -
      from that have "x \<in># mset aps'" by simp
      then consider "x \<in> set aps" | pp where "(p, pp) \<in> set aps" "x = (n, pp @ [part])"
        unfolding m by auto
      then show ?thesis
      proof cases
        case 1
        with B have b: "(fst x = 0 \<longrightarrow> snd x = [Name r0]) \<and>
           (0 < fst x \<longrightarrow> (\<exists>k. seen s k = Some (fst x) \<and> snd x = Name r0 # partsOf k))" by blast
        show ?thesis
        proof (intro conjI impI)
          assume "fst x = 0" with b show "snd x = [Name r0]" by simp
        next
          assume "0 < fst x"
          with b obtain k where k: "seen s k = Some (fst x)" "snd x = Name r0 # partsOf k" by blast
          with miss have "k \<noteq> key" by (auto simp: key_def)
          with k show "\<exists>k. ((seen s)(key \<mapsto> n)) k = Some (fst x) \<and> snd x = Name r0 # partsOf k"
            by auto
        qed
      next
        case 2
        have pp: "pp = Name r0 # partsOf sf"
        proof (cases "sf = []")
          case True
          with p0 2(1) B show ?thesis by (fastforce simp: partsOf_Nil)
        next
          case False
          from pn[OF False] 2(1) B obtain k where "seen s k = Some p" "pp = Name r0 # partsOf k"
            by fastforce
          moreover from sk pn[OF False] this(1) have "k = sf" unfolding seenOk_def by blast
          ultimately show ?thesis by simp
        qed
        have "partsOf key = partsOf sf @ [part]"
          unfolding key_def using part by (rule partsOf_snoc)
        with pp 2(2) npos show ?thesis by (intro conjI impI exI[of _ key]) simp_all
      qed
    qed
    from aps' A' B' show ?thesis
      unfolding pathsOk_def heap' seen' len by blast
  qed
  from 1 2 3 4 5 have "ctInv r0 tot s' (vs @ [key])" by (simp add: ctInv_def heap')
  with step show ?thesis by (auto simp: key_def)
qed

lemma visitPart_inv:
  assumes "ctInv r0 tot s vs" "CHR ''.'' \<notin> set part" "sf = [] \<or> sf \<in> set vs"
  shows "\<exists>s' sf'. visitPart tot 0 (s, sf) part = Some (s', sf') \<and>
      ctInv r0 tot s' (vs @ keysOf sf [part]) \<and>
      sf' = (if part = [] then sf else sf @ ''.'' @ part) \<and>
      (sf' = [] \<or> sf' \<in> set (vs @ keysOf sf [part]))"
proof (cases "part = []")
  case True
  with assms show ?thesis by (simp add: visitPart_def)
next
  case False
  show ?thesis
  proof (cases "seen s (sf @ ''.'' @ part)")
    case None
    from visitPart_miss[OF assms(1) False assms(2) None assms(3)] False show ?thesis by auto
  next
    case (Some n)
    from visitPart_hit[OF assms(1) False Some] False show ?thesis by auto
  qed
qed

lemma forParts_inv:
  "ctInv r0 tot s vs \<Longrightarrow> \<forall>p \<in> set parts. CHR ''.'' \<notin> set p \<Longrightarrow> sf = [] \<or> sf \<in> set vs \<Longrightarrow>
   \<exists>s' sf'. forParts tot 0 (s, sf) parts = Some (s', sf') \<and> ctInv r0 tot s' (vs @ keysOf sf parts)"
proof (induction parts arbitrary: s sf vs)
  case Nil
  then show ?case by simp
next
  case (Cons part parts)
  from Cons.prems(2) have nd: "CHR ''.'' \<notin> set part" by simp
  from visitPart_inv[OF Cons.prems(1) nd Cons.prems(3)] obtain s1 sf1 where
    v: "visitPart tot 0 (s, sf) part = Some (s1, sf1)"
    and i: "ctInv r0 tot s1 (vs @ keysOf sf [part])"
    and sf1: "sf1 = (if part = [] then sf else sf @ ''.'' @ part)"
    and m: "sf1 = [] \<or> sf1 \<in> set (vs @ keysOf sf [part])"
    by blast
  from Cons.prems(2) have rest: "\<forall>p \<in> set parts. CHR ''.'' \<notin> set p" by simp
  from Cons.IH[OF i rest m] obtain s' sf' where
    f: "forParts tot 0 (s1, sf1) parts = Some (s', sf')"
    and i': "ctInv r0 tot s' ((vs @ keysOf sf [part]) @ keysOf sf1 parts)"
    by blast
  have "keysOf sf (part # parts) = keysOf sf [part] @ keysOf sf1 parts"
    by (simp add: sf1)
  with v f i' show ?case by simp
qed

lemma forMetrics_inv:
  "ctInv r0 tot s vs \<Longrightarrow>
   \<exists>s'. forMetrics tot 0 s metrics = Some s' \<and> ctInv r0 tot s' (vs @ allKeys metrics)"
proof (induction metrics arbitrary: s vs)
  case Nil
  then show ?case by (simp add: allKeys_def)
next
  case (Cons metric metrics)
  have nd: "\<forall>p \<in> set (butlast (Split metric CHR ''.'')). CHR ''.'' \<notin> set p"
    by (blast dest: in_set_butlastD Split_parts_no_sep)
  from forParts_inv[OF Cons.prems nd, of "[]"] obtain s1 sf1 where
    f: "forParts tot 0 (s, []) (butlast (Split metric CHR ''.'')) = Some (s1, sf1)"
    and i: "ctInv r0 tot s1 (vs @ metricKeys metric)"
    by (auto simp: metricKeys_def)
  from Cons.IH[OF i] obtain s' where
    "forMetrics tot 0 s1 metrics = Some s'"
    "ctInv r0 tot s' ((vs @ metricKeys metric) @ allKeys metrics)"
    by blast
  with f show ?case by (simp add: allKeys_def)
qed

lemma constructTree_inv:
  assumes "ChildrenPtr r0 = []" "childrenIds r0 = []"
  shows "\<exists>s. constructTree [r0] 0 metrics = Some (heap s) \<and>
             ctInv r0 (of_nat (length metrics)) s (allKeys metrics)"
  using forMetrics_inv[OF ctInv_init[OF assms], of "of_nat (length metrics)" metrics]
  by (auto simp: constructTree_def)

section \<open>From the store to the tree\<close>

lemma tree_of_Suc_Some:
  "tree_of (Suc n) h a = Some t \<longleftrightarrow>
     a < length h \<and> (\<forall>c \<in> set (ChildrenPtr (h ! a)). tree_of n h c \<noteq> None) \<and>
     t = Node (nodeFields.truncate (h ! a)) (map (\<lambda>c. the (tree_of n h c)) (ChildrenPtr (h ! a)))"
proof (cases "mapM (tree_of n h) (ChildrenPtr (h ! a))")
  case None
  moreover note None[unfolded mapM_None_iff]
  ultimately show ?thesis by auto
next
  case (Some ts)
  moreover note Some[unfolded mapM_Some_iff]
  ultimately show ?thesis by auto
qed

declare tree_of.simps(2) [simp del]

lemma truncate_simps [simp]:
  "idn (nodeFields.truncate r) = idn r" "cluster (nodeFields.truncate r) = cluster r"
  "Name (nodeFields.truncate r) = Name r" "Total (nodeFields.truncate r) = Total r"
  "Value (nodeFields.truncate r) = Value r" "childrenIds (nodeFields.truncate r) = childrenIds r"
  by (simp_all add: nodeFields.truncate_def)

lemma tree_of_paths_of:
  "paths_of n h pre a = Some aps \<Longrightarrow>
   \<exists>t. tree_of n h a = Some t \<and>
     map nfields (nodes t) = map (\<lambda>x. nodeFields.truncate (h ! fst x)) aps \<and>
     pathvals pre t = map (\<lambda>x. (snd x, Value (h ! fst x), Total (h ! fst x))) aps"
proof (induction n arbitrary: pre a aps)
  case 0
  then show ?case by simp
next
  case (Suc n)
  define pre' where "pre' = pre @ [Name (h ! a)]"
  define cs where "cs = ChildrenPtr (h ! a)"
  from Suc.prems have a: "a < length h"
    and ch: "\<forall>c \<in> set cs. paths_of n h pre' c \<noteq> None"
    and aps: "aps = (a, pre') # concat (map (\<lambda>c. the (paths_of n h pre' c)) cs)"
    unfolding paths_of_Suc_Some pre'_def cs_def by blast+
  have IH: "tree_of n h c \<noteq> None \<and>
      map nfields (nodes (the (tree_of n h c))) =
        map (\<lambda>x. nodeFields.truncate (h ! fst x)) (the (paths_of n h pre' c)) \<and>
      pathvals pre' (the (tree_of n h c)) =
        map (\<lambda>x. (snd x, Value (h ! fst x), Total (h ! fst x))) (the (paths_of n h pre' c))"
    if "c \<in> set cs" for c
  proof -
    from ch that obtain x where x: "paths_of n h pre' c = Some x" by auto
    from Suc.IH[OF x] show ?thesis by (auto simp: x)
  qed
  define t where "t = Node (nodeFields.truncate (h ! a)) (map (\<lambda>c. the (tree_of n h c)) cs)"
  have 1: "tree_of (Suc n) h a = Some t"
    unfolding tree_of_Suc_Some using a IH by (simp add: t_def cs_def)
  have 2: "map nfields (nodes t) = map (\<lambda>x. nodeFields.truncate (h ! fst x)) aps"
    unfolding t_def aps using IH
    by (simp add: map_concat comp_def cong: map_cong)
  have 3: "pathvals pre t = map (\<lambda>x. (snd x, Value (h ! fst x), Total (h ! fst x))) aps"
    unfolding t_def aps using IH
    by (simp add: map_concat comp_def pre'_def cong: map_cong)
  from 1 2 3 show ?case by blast
qed

lemma tree_of_nfields: "tree_of n h a = Some t \<Longrightarrow> nfields t = nodeFields.truncate (h ! a)"
  by (cases n) (auto simp: tree_of_Suc_Some)

lemma wfTree_Node:
  "wfTree (Node f ts) \<longleftrightarrow> childrenIds f = map (\<lambda>c. idn (nfields c)) ts \<and> (\<forall>t \<in> set ts. wfTree t)"
  by (auto simp: wfTree_def)

lemma tree_of_wfTree:
  assumes "kidsOk h" "\<And>a. a < length h \<Longrightarrow> idn (h ! a) = of_nat (a + 1)"
  shows "tree_of n h a = Some t \<Longrightarrow> wfTree t"
proof (induction n arbitrary: a t)
  case 0
  then show ?case by simp
next
  case (Suc n)
  define cs where "cs = ChildrenPtr (h ! a)"
  from Suc.prems have a: "a < length h"
    and ch: "\<forall>c \<in> set cs. tree_of n h c \<noteq> None"
    and t: "t = Node (nodeFields.truncate (h ! a)) (map (\<lambda>c. the (tree_of n h c)) cs)"
    unfolding tree_of_Suc_Some cs_def by blast+
  from assms(1) a have k: "childrenIds (h ! a) = map (\<lambda>c. of_nat (c + 1)) cs"
    and b: "\<forall>c \<in> set cs. c < length h"
    by (auto simp: kidsOk_def cs_def)
  have c: "idn (nfields (the (tree_of n h c))) = of_nat (c + 1) \<and> wfTree (the (tree_of n h c))"
    if "c \<in> set cs" for c
  proof -
    from ch that obtain x where x: "tree_of n h c = Some x" by auto
    from tree_of_nfields[OF x] assms(2)[of c] b that Suc.IH[OF x] show ?thesis
      by (simp add: x)
  qed
  show ?case unfolding t wfTree_Node using c k by (simp add: comp_def cong: map_cong)
qed

section \<open>The tree parseTree builds\<close>

lemma newRoot_simps [simp]:
  "idn (newRoot c ms) = rootElementId" "cluster (newRoot c ms) = c"
  "Name (newRoot c ms) = ''all''" "Total (newRoot c ms) = of_nat (length ms)"
  "Value (newRoot c ms) = of_nat (length ms)" "childrenIds (newRoot c ms) = []"
  "ChildrenPtr (newRoot c ms) = []"
  by (simp_all add: newRoot_def)

lemma parseTree_builtFrom: "\<exists>t s aps. builtFrom c ms t s aps"
proof -
  from constructTree_inv[of "newRoot c ms" ms] obtain s where
    ct: "constructTree [newRoot c ms] 0 ms = Some (heap s)"
    and inv: "ctInv (newRoot c ms) (of_nat (length ms)) s (allKeys ms)"
    by auto
  from inv obtain aps where aps: "paths_of (length (heap s)) (heap s) [] 0 = Some aps"
    and A: "image_mset fst (mset aps) = mset [0..<length (heap s)]"
    and B: "\<forall>x \<in> set aps.
        (fst x = 0 \<longrightarrow> snd x = [''all'']) \<and>
        (0 < fst x \<longrightarrow> (\<exists>k. seen s k = Some (fst x) \<and> snd x = ''all'' # partsOf k))"
    by (auto simp: ctInv_def pathsOk_def)
  from tree_of_paths_of[OF aps] obtain t where
    t: "tree_of (length (heap s)) (heap s) 0 = Some t"
    and n: "map nfields (nodes t) = map (\<lambda>x. nodeFields.truncate (heap s ! fst x)) aps"
    and p: "pathvals [] t = map (\<lambda>x. (snd x, Value (heap s ! fst x), Total (heap s ! fst x))) aps"
    by blast
  have "parseTree c ms = Some t" by (simp add: parseTree_def ct t)
  with t inv aps A B n p show ?thesis unfolding builtFrom_def by blast
qed

lemma builtFrom_addr:
  assumes "builtFrom c ms t s aps" "a < length (heap s)"
  shows "\<exists>x \<in> set aps. fst x = a"
proof -
  from assms have "a \<in># image_mset fst (mset aps)" by (simp add: builtFrom_def)
  then show ?thesis by auto
qed

lemma builtFrom_in_range:
  assumes "builtFrom c ms t s aps" "x \<in> set aps"
  shows "fst x < length (heap s)"
proof -
  from assms(2) have "fst x \<in># image_mset fst (mset aps)" by simp
  with assms(1) show ?thesis by (simp add: builtFrom_def)
qed

lemma builtFrom_root:
  assumes "builtFrom c ms t s aps"
  shows "idn (heap s ! 0) = rootElementId" "Value (heap s ! 0) = of_nat (length ms)"
    "Total (heap s ! 0) = of_nat (length ms)" "0 < length (heap s)"
  using assms by (simp_all add: builtFrom_def ctInv_def rootOk_def)

lemma builtFrom_inner:
  assumes "builtFrom c ms t s aps" "0 < a" "a < length (heap s)"
  shows "\<exists>k \<in> set (allKeys ms). idn (heap s ! a) = of_nat (a + 1) \<and>
     Value (heap s ! a) = of_nat (count_list (allKeys ms) k) \<and>
     Total (heap s ! a) = of_nat (length ms)"
proof -
  from builtFrom_addr[OF assms(1,3)] obtain x where x: "x \<in> set aps" "fst x = a" by blast
  with assms(1,2) obtain k where k: "seen s k = Some a"
    unfolding builtFrom_def by blast
  from assms(1) have sk: "seenOk (newRoot c ms) (of_nat (length ms)) s (allKeys ms)"
    by (simp add: builtFrom_def ctInv_def)
  from sk k have "k \<in> set (allKeys ms)" unfolding seenOk_def by blast
  with sk k show ?thesis unfolding seenOk_def by blast
qed

lemma builtFrom_length: "builtFrom c ms t s aps \<Longrightarrow> length (nodes t) = length (heap s)"
proof -
  assume b: "builtFrom c ms t s aps"
  then have "length (nodes t) = length aps"
    unfolding builtFrom_def by (metis length_map)
  also have "\<dots> = size (image_mset fst (mset aps))" by simp
  also have "\<dots> = length (heap s)" using b by (simp add: builtFrom_def)
  finally show ?thesis .
qed

lemma builtFrom_node:
  assumes "builtFrom c ms t s aps" "m \<in> set (nodes t)"
  shows "\<exists>a < length (heap s). nfields m = nodeFields.truncate (heap s ! a)"
proof -
  from assms(2) have "nfields m \<in> set (map nfields (nodes t))" by simp
  with assms(1) obtain x where x: "x \<in> set aps" "nfields m = nodeFields.truncate (heap s ! fst x)"
    unfolding builtFrom_def by auto
  from x(1) have "fst x \<in># image_mset fst (mset aps)" by simp
  with assms(1) have "fst x < length (heap s)" by (simp add: builtFrom_def)
  with x(2) show ?thesis by blast
qed

lemma builtFrom_distinct_addrs: "builtFrom c ms t s aps \<Longrightarrow> distinct (map fst aps)"
proof -
  assume "builtFrom c ms t s aps"
  then have "mset (map fst aps) = mset [0..<length (heap s)]" by (simp add: builtFrom_def)
  then show ?thesis by (metis distinct_upt mset_eq_imp_distinct_iff)
qed

lemma builtFrom_idn:
  assumes "builtFrom c ms t s aps" "a < length (heap s)"
  shows "idn (heap s ! a) = of_nat (a + 1)"
proof (cases "a = 0")
  case True
  with builtFrom_root(1)[OF assms(1)] show ?thesis by (simp add: rootElementId_def)
next
  case False
  with builtFrom_inner[OF assms(1) _ assms(2)] show ?thesis by auto
qed

lemma builtFrom_ids: "builtFrom c ms t s aps \<Longrightarrow> ids t = map (\<lambda>x. of_nat (fst x + 1)) aps"
proof -
  assume b: "builtFrom c ms t s aps"
  have "ids t = map idn (map nfields (nodes t))" by (simp add: ids_def)
  also have "\<dots> = map (\<lambda>x. idn (heap s ! fst x)) aps"
    using b by (simp add: builtFrom_def comp_def)
  also have "\<dots> = map (\<lambda>x. of_nat (fst x + 1)) aps"
  proof (rule map_cong[OF refl])
    fix x assume "x \<in> set aps"
    then have "fst x \<in># image_mset fst (mset aps)" by simp
    with b have "fst x < length (heap s)" by (simp add: builtFrom_def)
    from builtFrom_idn[OF b this] show "idn (heap s ! fst x) = of_nat (fst x + 1)" .
  qed
  finally show ?thesis .
qed

lemma builtFrom_distinct_ids:
  assumes b: "builtFrom c ms t s aps" and small: "length (nodes t) < 2 ^ 64"
  shows "distinct (ids t)"
proof -
  have len: "length (heap s) < 2 ^ 64" using small builtFrom_length[OF b] by simp
  have "distinct (map (\<lambda>a. (of_nat (a + 1) :: u64)) (map fst aps))"
  proof (rule distinct_map[THEN iffD2], intro conjI inj_onI)
    show "distinct (map fst aps)" using b by (rule builtFrom_distinct_addrs)
  next
    fix x y assume x: "x \<in> set (map fst aps)" and y: "y \<in> set (map fst aps)"
      and eq: "(of_nat (x + 1) :: u64) = of_nat (y + 1)"
    from x y builtFrom_in_range[OF b] have "x < length (heap s)" "y < length (heap s)"
      by auto
    with len have "x + 1 < 2 ^ 64" "y + 1 < 2 ^ 64" by simp_all
    with eq show "x = y"
      by (simp add: word_of_nat_eq_iff take_bit_nat_eq_self del: of_nat_add of_nat_Suc)
  qed
  then show ?thesis by (simp add: builtFrom_ids[OF b] comp_def)
qed

lemma builtFrom_wfTree: "builtFrom c ms t s aps \<Longrightarrow> wfTree t"
proof -
  assume b: "builtFrom c ms t s aps"
  then have k: "kidsOk (heap s)" and t: "tree_of (length (heap s)) (heap s) 0 = Some t"
    by (simp_all add: builtFrom_def ctInv_def)
  show ?thesis by (rule tree_of_wfTree[OF k builtFrom_idn[OF b] t])
qed

lemma builtFrom_root_id: "builtFrom c ms t s aps \<Longrightarrow> idn (nfields t) = rootElementId"
proof -
  assume b: "builtFrom c ms t s aps"
  then have "nfields t = nodeFields.truncate (heap s ! 0)"
    unfolding builtFrom_def using tree_of_nfields by blast
  with builtFrom_root(1)[OF b] show ?thesis by simp
qed

lemma builtFrom_hd:
  assumes b: "builtFrom c ms t s aps"
  shows "\<exists>rest. aps = (0, [''all'']) # rest"
proof -
  from builtFrom_root(4)[OF b] obtain n where n: "length (heap s) = Suc n"
    by (cases "length (heap s)") auto
  from b have "paths_of (Suc n) (heap s) [] 0 = Some aps" by (simp add: builtFrom_def n)
  then obtain rest pp where aps: "aps = (0, pp) # rest"
    unfolding paths_of_Suc_Some by blast
  with b have "pp = [''all'']" unfolding builtFrom_def by auto
  with aps show ?thesis by blast
qed


lemma u64_of_nat_le: "i \<le> j \<Longrightarrow> j < 2 ^ 64 \<Longrightarrow> (of_nat i :: u64) \<le> of_nat j"
  by (simp add: of_nat_word_less_eq_iff take_bit_nat_eq_self)


lemma parseTree_example: "parseTree ''main'' [''a.b.c'', ''a.b.d'', ''a.e''] = Some exampleBuilt"
  by code_simp

text \<open>
  C9. For every list of fewer than \<open>2^64\<close> names (a Go slice is shorter), parseTree builds a
  tree whose root has value and total equal to the number of names, and every node of the
  tree has a value of at most its total, the total being that same number in every node.
\<close>

theorem parseTree_value_le_total:
  assumes "length metrics < 2 ^ 64"
  shows "\<exists>t. parseTree c metrics = Some t \<and>
           Value (nfields t) = of_nat (length metrics) \<and>
           Total (nfields t) = of_nat (length metrics) \<and>
           (\<forall>m \<in> set (nodes t).
              Value (nfields m) \<le> Total (nfields m) \<and> Total (nfields m) = of_nat (length metrics))"
proof -
  from parseTree_builtFrom obtain t s aps where b: "builtFrom c metrics t s aps" by blast
  have root: "Value (nfields t) = of_nat (length metrics) \<and> Total (nfields t) = of_nat (length metrics)"
  proof -
    from b have "nfields t = nodeFields.truncate (heap s ! 0)"
      unfolding builtFrom_def using tree_of_nfields by blast
    with builtFrom_root[OF b] show ?thesis by simp
  qed
  have "Value (nfields m) \<le> Total (nfields m) \<and> Total (nfields m) = of_nat (length metrics)"
    if "m \<in> set (nodes t)" for m
  proof -
    from builtFrom_node[OF b that] obtain a where a: "a < length (heap s)"
      "nfields m = nodeFields.truncate (heap s ! a)" by blast
    show ?thesis
    proof (cases "a = 0")
      case True
      with a builtFrom_root[OF b] show ?thesis by simp
    next
      case False
      with builtFrom_inner[OF b _ a(1)] obtain k where
        "Value (heap s ! a) = of_nat (count_list (allKeys metrics) k)"
        "Total (heap s ! a) = of_nat (length metrics)" by auto
      with a(2) u64_of_nat_le[OF count_allKeys_le assms, of k] show ?thesis by simp
    qed
  qed
  with root b show ?thesis unfolding builtFrom_def by blast
qed

theorem parseTree_value_le_total_witness:
  "length [''a.b.c'', ''a.b.d'', ''a.e''] < (2::nat) ^ 64 \<and>
   parseTree ''main'' [''a.b.c'', ''a.b.d'', ''a.e''] = Some exampleBuilt \<and>
   Value (nfields exampleBuilt) = 3 \<and> Total (nfields exampleBuilt) = 3 \<and>
   Value (nfields (Children exampleBuilt ! 0)) \<le> Total (nfields (Children exampleBuilt ! 0))"
  using parseTree_value_le_total[of "[''a.b.c'', ''a.b.d'', ''a.e'']" "''main''"]
  by (simp add: parseTree_example) (simp add: exampleBuilt_def)

section \<open>Rebuilding from the rows\<close>

lemma nodes_child_subset: "c \<in> set (Children t) \<Longrightarrow> set (nodes c) \<subseteq> set (nodes t)"
  by (cases t) auto

lemma length_nodes_child: "c \<in> set (Children t) \<Longrightarrow> length (nodes c) < length (nodes t)"
proof (cases t)
  case (Node f cs)
  assume "c \<in> set (Children t)"
  with Node have "c \<in> set cs" by simp
  then have "length (nodes c) \<le> length (concat (map nodes cs))"
    by (induction cs) auto
  with Node show ?thesis by simp
qed

lemma wfTree_child: "wfTree t \<Longrightarrow> c \<in> set (Children t) \<Longrightarrow> wfTree c"
  by (cases t) (simp add: wfTree_Node)

lemma nodeFromData_row:
  "dataAt data (idn f) = row f ts \<Longrightarrow> nodeFromData data (idn f) = Node f []"
  by (simp add: nodeFromData_def row_def)



lemma set_convert:
  "set (convertToClickhouse t ts) = (\<lambda>m. row (nfields m) ts) ` set (nodes t)"
  "set (convertLoop cs ts) = (\<lambda>m. row (nfields m) ts) ` (\<Union>c \<in> set cs. set (nodes c))"
proof (induction t ts and cs ts rule: convertToClickhouse_convertLoop.induct)
  case (1 f cs timestamp)
  then show ?case by simp
next
  case (2 timestamp)
  show ?case by simp
next
  case (3 n ns timestamp)
  have "row (nfields n) timestamp \<in> (\<lambda>m. row (nfields m) timestamp) ` set (nodes n)"
    using self_in_nodes[of n] by blast
  with 3 show ?case by (auto simp: image_Un)
qed

lemma rowsById_other: "i \<notin> Id_ch ` set rows \<Longrightarrow> rowsById d rows i = d i"
  by (induction rows arbitrary: d) auto

lemma rowsById_unique:
  "r \<in> set rows \<Longrightarrow> (\<And>r'. r' \<in> set rows \<Longrightarrow> Id_ch r' = Id_ch r \<Longrightarrow> r' = r) \<Longrightarrow>
   rowsById d rows (Id_ch r) = Some r"
proof (induction rows arbitrary: d)
  case Nil
  then show ?case by simp
next
  case (Cons x rows)
  show ?case
  proof (cases "r \<in> set rows")
    case True
    then show ?thesis using Cons.prems(2) by (simp add: Cons.IH)
  next
    case False
    with Cons.prems(1) have x: "x = r" by simp
    have "Id_ch r \<notin> Id_ch ` set rows"
    proof
      assume "Id_ch r \<in> Id_ch ` set rows"
      then obtain r' where "r' \<in> set rows" "Id_ch r' = Id_ch r" by auto
      with Cons.prems(2)[of r'] False show False by auto
    qed
    then show ?thesis by (simp add: x rowsById_other)
  qed
qed

lemma distinct_ids_same:
  "distinct (ids t) \<Longrightarrow> m \<in> set (nodes t) \<Longrightarrow> m' \<in> set (nodes t) \<Longrightarrow>
   idn (nfields m) = idn (nfields m') \<Longrightarrow> m = m'"
  unfolding ids_def by (auto simp: distinct_map dest: inj_onD)

lemma Id_ch_row: "Id_ch (row f ts) = idn f"
  by (simp add: row_def)




lemma reconstructLoop_kept_children:
  assumes "\<And>c. c \<in> set cs \<Longrightarrow> f < Value (nfields c) \<Longrightarrow>
             dataAt data (idn (nfields c)) = row (nfields c) ts"
    and "\<And>c. c \<in> set cs \<Longrightarrow> \<not> f < Value (nfields c) \<Longrightarrow>
             \<not> f < Value_ch (dataAt data (idn (nfields c)))"
    and "\<And>c. c \<in> set cs \<Longrightarrow> f < Value (nfields c) \<Longrightarrow>
             recurse (Node (nfields c) []) = Some (trimNodes c f)"
  shows "reconstructLoop recurse data f root (map (\<lambda>c. idn (nfields c)) cs) =
         Some (Node (nfields root) (Children root @ trimLoop cs f))"
  using assms
proof (induction cs arbitrary: root)
  case Nil
  show ?case by simp
next
  case (Cons c cs)
  have IH: "reconstructLoop recurse data f root' (map (\<lambda>c. idn (nfields c)) cs) =
         Some (Node (nfields root') (Children root' @ trimLoop cs f))" for root'
    by (rule Cons.IH) (simp_all add: Cons.prems)
  show ?case
  proof (cases "f < Value (nfields c)")
    case True
    have d: "dataAt data (idn (nfields c)) = row (nfields c) ts"
      using True by (simp add: Cons.prems(1))
    have v: "Value_ch (dataAt data (idn (nfields c))) = Value (nfields c)"
      by (simp add: d row_def)
    have n: "nodeFromData data (idn (nfields c)) = Node (nfields c) []"
      using d by (rule nodeFromData_row)
    have r: "recurse (Node (nfields c) []) = Some (trimNodes c f)"
      using True by (simp add: Cons.prems(3))
    show ?thesis using True by (simp add: v n r IH)
  next
    case False
    have "\<not> f < Value_ch (dataAt data (idn (nfields c)))"
      using False by (simp add: Cons.prems(2))
    with False show ?thesis by (simp add: IH)
  qed
qed

lemma reconstructTree_kept_trimNodes:
  assumes "\<And>m. m \<in> set (nodes t) \<Longrightarrow> f < Value (nfields m) \<Longrightarrow>
             dataAt data (idn (nfields m)) = row (nfields m) ts"
    and "\<And>m. m \<in> set (nodes t) \<Longrightarrow> \<not> f < Value (nfields m) \<Longrightarrow>
             \<not> f < Value_ch (dataAt data (idn (nfields m)))"
    and "wfTree t" and "length (nodes t) \<le> fuel"
  shows "reconstructTree fuel data (Node (nfields t) cs0) f =
         Some (Node (nfields t) (cs0 @ Children (trimNodes t f)))"
  using assms
proof (induction fuel arbitrary: t cs0)
  case 0
  then show ?case by (cases t) simp
next
  case (Suc fuel)
  have ids: "childrenIds (nfields t) = map (\<lambda>c. idn (nfields c)) (Children t)"
    using Suc.prems(3) by (cases t) (simp add: wfTree_Node)
  have sub: "m \<in> set (nodes t)" if "c \<in> set (Children t)" "m \<in> set (nodes c)" for c m
    using nodes_child_subset[OF that(1)] that(2) by blast
  have rec: "reconstructTree fuel data (Node (nfields c) []) f = Some (trimNodes c f)"
    if c: "c \<in> set (Children t)" for c
  proof -
    have "reconstructTree fuel data (Node (nfields c) []) f =
        Some (Node (nfields c) ([] @ Children (trimNodes c f)))"
    proof (rule Suc.IH)
      fix m assume "m \<in> set (nodes c)" "f < Value (nfields m)"
      with sub[OF c] show "dataAt data (idn (nfields m)) = row (nfields m) ts"
        by (simp add: Suc.prems(1))
    next
      fix m assume "m \<in> set (nodes c)" "\<not> f < Value (nfields m)"
      with sub[OF c] show "\<not> f < Value_ch (dataAt data (idn (nfields m)))"
        by (simp add: Suc.prems(2))
    next
      show "wfTree c" using Suc.prems(3) c by (rule wfTree_child)
    next
      show "length (nodes c) \<le> fuel" using length_nodes_child[OF c] Suc.prems(4) by simp
    qed
    also have "Node (nfields c) ([] @ Children (trimNodes c f)) = trimNodes c f"
      by (cases c) simp
    finally show ?thesis .
  qed
  have child: "c \<in> set (nodes t)" if "c \<in> set (Children t)" for c
    using sub[OF that self_in_nodes] .
  have "reconstructLoop (\<lambda>node. reconstructTree fuel data node f) data f
      (Node (nfields t) cs0) (map (\<lambda>c. idn (nfields c)) (Children t)) =
      Some (Node (nfields (Node (nfields t) cs0))
             (Children (Node (nfields t) cs0) @ trimLoop (Children t) f))"
    by (rule reconstructLoop_kept_children[where ts = ts])
       (simp_all add: child rec Suc.prems(1,2))
  then have "reconstructTree (Suc fuel) data (Node (nfields t) cs0) f =
      Some (Node (nfields t) (cs0 @ trimLoop (Children t) f))"
    by (simp add: ids)
  then show ?case by (cases t) simp
qed

lemma Value_ch_row: "Value_ch (row f ts) = Value f"
  by (simp add: row_def)

lemma dataAt_queryRows_kept:
  assumes "distinct (ids t)" "m \<in> set (nodes t)" "f < Value (nfields m)"
  shows "dataAt (rowsById Map.empty (queryRows (convertToClickhouse t ts) f)) (idn (nfields m)) =
         row (nfields m) ts"
proof -
  have "rowsById Map.empty (queryRows (convertToClickhouse t ts) f) (Id_ch (row (nfields m) ts)) =
      Some (row (nfields m) ts)"
  proof (rule rowsById_unique)
    show "row (nfields m) ts \<in> set (queryRows (convertToClickhouse t ts) f)"
      using assms(2,3) by (auto simp: queryRows_def set_convert Value_ch_row)
  next
    fix r' assume "r' \<in> set (queryRows (convertToClickhouse t ts) f)"
      "Id_ch r' = Id_ch (row (nfields m) ts)"
    then obtain m' where m': "m' \<in> set (nodes t)" "r' = row (nfields m') ts"
      "idn (nfields m') = idn (nfields m)"
      by (auto simp: queryRows_def set_convert Id_ch_row)
    from distinct_ids_same[OF assms(1) m'(1) assms(2) m'(3)] m'(2)
    show "r' = row (nfields m) ts" by simp
  qed
  then show ?thesis by (simp add: dataAt_def Id_ch_row)
qed

lemma dataAt_queryRows_dropped:
  assumes "distinct (ids t)" "m \<in> set (nodes t)" "\<not> f < Value (nfields m)"
  shows "dataAt (rowsById Map.empty (queryRows (convertToClickhouse t ts) f)) (idn (nfields m)) =
         zeroField"
proof -
  have "idn (nfields m) \<notin> Id_ch ` set (queryRows (convertToClickhouse t ts) f)"
  proof
    assume "idn (nfields m) \<in> Id_ch ` set (queryRows (convertToClickhouse t ts) f)"
    then obtain m' where m': "m' \<in> set (nodes t)" "f < Value (nfields m')"
      "idn (nfields m') = idn (nfields m)"
      by (auto simp: queryRows_def set_convert Id_ch_row Value_ch_row)
    from distinct_ids_same[OF assms(1) m'(1) assms(2) m'(3)] m'(2) assms(3)
    show False by simp
  qed
  then have "rowsById Map.empty (queryRows (convertToClickhouse t ts) f) (idn (nfields m)) = None"
    by (simp add: rowsById_other)
  then show ?thesis by (simp add: dataAt_def)
qed

lemma readSnapshot_trimNodes:
  assumes "distinct (ids t)" "wfTree t" "idn (nfields t) = rootElementId"
    "length (nodes t) \<le> fuel" "f < Value (nfields t)"
  shows "readSnapshot fuel (convertToClickhouse t ts) f = Some (trimNodes t f)"
proof -
  define data where "data = rowsById Map.empty (queryRows (convertToClickhouse t ts) f)"
  have kept: "dataAt data (idn (nfields m)) = row (nfields m) ts"
    if "m \<in> set (nodes t)" "f < Value (nfields m)" for m
    unfolding data_def using assms(1) that by (rule dataAt_queryRows_kept)
  have dropped: "\<not> f < Value_ch (dataAt data (idn (nfields m)))"
    if "m \<in> set (nodes t)" "\<not> f < Value (nfields m)" for m
    unfolding data_def dataAt_queryRows_dropped[OF assms(1) that]
    by (simp add: zeroField_def)
  have "nodeFromData data (idn (nfields t)) = Node (nfields t) []"
    using kept[OF self_in_nodes assms(5)] by (rule nodeFromData_row)
  then have root: "nodeFromData data rootElementId = Node (nfields t) []"
    by (simp add: assms(3))
  have "reconstructTree fuel data (Node (nfields t) []) f =
      Some (Node (nfields t) ([] @ Children (trimNodes t f)))"
    using kept dropped assms(2,4) by (rule reconstructTree_kept_trimNodes)
  also have "Node (nfields t) ([] @ Children (trimNodes t f)) = trimNodes t f"
    by (cases t) simp
  finally show ?thesis
    by (simp add: readSnapshot_def reconstructFromRows_def data_def[symmetric] root)
qed

text \<open>
  C3, as amended. For every list of names and every floor \<open>f\<close> below the value of the root,
  parseTree builds a tree, and when the tree has fewer than \<open>2^64\<close> nodes (so that the
  counter of ids does not wrap), rebuilding with minimum value \<open>f\<close> from the rows of the
  flattened, untrimmed tree that the query returns (those whose value exceeds \<open>f\<close>) gives,
  for every depth bound that is not smaller than the number of nodes, exactly the tree that
  trimming the built tree with floor \<open>f\<close> gives; every node of that tree carries the fields
  of a node of the built tree, so no value is derived again.
\<close>

theorem reconstruct_is_read_time_trim:
  "\<exists>t. parseTree c metrics = Some t \<and>
     (length (nodes t) < 2 ^ 64 \<and> f < Value (nfields t) \<longrightarrow>
        (\<forall>fuel \<ge> length (nodes t).
           readSnapshot fuel (convertToClickhouse t ts) f = Some (trimNodes t f))) \<and>
     (\<forall>m \<in> set (nodes (trimNodes t f)). \<exists>n \<in> set (nodes t). nfields m = nfields n)"
proof -
  from parseTree_builtFrom obtain t s aps where b: "builtFrom c metrics t s aps" by blast
  have "readSnapshot fuel (convertToClickhouse t ts) f = Some (trimNodes t f)"
    if "length (nodes t) < 2 ^ 64" "f < Value (nfields t)" "length (nodes t) \<le> fuel" for fuel
    using builtFrom_distinct_ids[OF b that(1)] builtFrom_wfTree[OF b] builtFrom_root_id[OF b]
      that(3,2)
    by (rule readSnapshot_trimNodes)
  moreover from b have "parseTree c metrics = Some t" by (simp add: builtFrom_def)
  moreover have "\<forall>m \<in> set (nodes (trimNodes t f)). \<exists>n \<in> set (nodes t). nfields m = nfields n"
    using nodes_trimNodes_origin nfields_trimNodes by metis
  ultimately show ?thesis by blast
qed

theorem reconstruct_is_read_time_trim_witness:
  "parseTree ''main'' [''a.b.c'', ''a.b.d'', ''a.e''] = Some exampleBuilt \<and>
   length (nodes exampleBuilt) < 2 ^ 64 \<and> 2 < Value (nfields exampleBuilt) \<and>
   readSnapshot 3 (convertToClickhouse exampleBuilt 7) 2 = Some (trimNodes exampleBuilt 2) \<and>
   length (queryRows (convertToClickhouse exampleBuilt 7) 2) = 3 \<and>
   length (Children (the (readSnapshot 3 (convertToClickhouse exampleBuilt 7) 2))) = 1"
  using reconstruct_is_read_time_trim[of "''main''" "[''a.b.c'', ''a.b.d'', ''a.e'']" 2 7]
  by (simp add: parseTree_example) (simp add: exampleBuilt_def queryRows_def row_def)

text \<open>
  C3 as stated fails for a floor that is not below the value of the root: for the tree
  built from no names and floor 0 the query returns no row, not even the row of the root,
  and the rebuilt node is the zero node, while trimming leaves the root \<open>all\<close>.
\<close>

theorem readSnapshot_root_filtered_counterexample:
  "parseTree ''main'' [] = Some emptyTree \<and>
   queryRows (convertToClickhouse emptyTree 7) 0 = [] \<and>
   readSnapshot 1 (convertToClickhouse emptyTree 7) 0 = Some zeroNode \<and>
   trimNodes emptyTree 0 = emptyTree \<and>
   readSnapshot 1 (convertToClickhouse emptyTree 7) 0 \<noteq> Some (trimNodes emptyTree 0)"
  by (simp add: emptyTree_def parseTree_def constructTree_def newRoot_def rootElementId_def
        nodeFields.truncate_def tree_of.simps(2) queryRows_def row_def readSnapshot_def
        reconstructFromRows_def nodeFromData_def dataAt_def zeroField_def zeroNode_def
        numeral_eq_Suc)



section \<open>The order of the names\<close>

lemma builtFrom_seenOk:
  "builtFrom c ms t s aps \<Longrightarrow> seenOk (newRoot c ms) (of_nat (length ms)) s (allKeys ms)"
  by (simp add: builtFrom_def ctInv_def)

lemma builtFrom_mset_aps:
  assumes b: "builtFrom c ms t s aps"
  shows "mset aps = add_mset (0, [''all''])
           (image_mset (\<lambda>k. (the (seen s k), ''all'' # partsOf k)) (mset_set (set (allKeys ms))))"
proof -
  define K where "K = set (allKeys ms)"
  define G where "G = (\<lambda>k. (the (seen s k), ''all'' # partsOf k))"
  note sk = builtFrom_seenOk[OF b]
  have dom: "dom (seen s) = K" using sk by (simp add: seenOk_def K_def)
  have pos: "0 < a \<and> a < length (heap s)" if "seen s k = Some a" for k a
    using sk that unfolding seenOk_def by blast
  have inj: "k = k'" if "seen s k = Some a" "seen s k' = Some a" for k k' a
    using sk that unfolding seenOk_def by blast
  have B: "(fst x = 0 \<longrightarrow> snd x = [''all'']) \<and>
        (0 < fst x \<longrightarrow> (\<exists>k. seen s k = Some (fst x) \<and> snd x = ''all'' # partsOf k))"
    if "x \<in> set aps" for x
    using b that unfolding builtFrom_def by blast
  have dist: "distinct aps"
    using builtFrom_distinct_addrs[OF b] by (simp add: distinct_map)
  have injG: "inj_on G K"
  proof (rule inj_onI)
    fix k k' assume k: "k \<in> K" "k' \<in> K" and eq: "G k = G k'"
    from k dom obtain a a' where a: "seen s k = Some a" "seen s k' = Some a'" by blast
    with eq have "a = a'" by (simp add: G_def)
    with a show "k = k'" using inj by blast
  qed
  have notin: "(0, [''all'']) \<notin> G ` K"
  proof
    assume "(0, [''all'']) \<in> G ` K"
    then obtain k where k: "k \<in> K" "G k = (0, [''all''])" by auto
    from k(1) dom obtain a where a: "seen s k = Some a" by blast
    with k(2) pos[OF a] show False by (simp add: G_def)
  qed
  have set_eq: "set aps = insert (0, [''all'']) (G ` K)"
  proof (intro equalityI subsetI)
    fix x assume x: "x \<in> set aps"
    show "x \<in> insert (0, [''all'']) (G ` K)"
    proof (cases "fst x = 0")
      case True
      with B[OF x] have "x = (0, [''all''])" by (simp add: prod_eq_iff)
      then show ?thesis by simp
    next
      case False
      with B[OF x] obtain k where k: "seen s k = Some (fst x)" "snd x = ''all'' # partsOf k"
        by auto
      then have "x = G k" by (simp add: G_def prod_eq_iff)
      moreover from k(1) dom have "k \<in> K" by blast
      ultimately show ?thesis by blast
    qed
  next
    fix x assume "x \<in> insert (0, [''all'']) (G ` K)"
    then consider "x = (0, [''all''])" | k where "k \<in> K" "x = G k" by blast
    then show "x \<in> set aps"
    proof cases
      case 1
      with builtFrom_hd[OF b] show ?thesis by auto
    next
      case 2
      from 2(1) dom obtain a where a: "seen s k = Some a" by blast
      from builtFrom_addr[OF b, of a] pos[OF a] obtain y where y: "y \<in> set aps" "fst y = a"
        by blast
      with B[OF y(1)] pos[OF a] obtain k' where k': "seen s k' = Some a" "snd y = ''all'' # partsOf k'"
        by auto
      from inj[OF a k'(1)] k'(2) y(2) a have "y = G k" by (simp add: G_def prod_eq_iff)
      with y(1) 2(2) show ?thesis by simp
    qed
  qed
  have "mset aps = mset_set (set aps)" using dist by (simp add: mset_set_set)
  also have "\<dots> = add_mset (0, [''all'']) (mset_set (G ` K))"
    unfolding set_eq using notin by (simp add: K_def)
  also have "mset_set (G ` K) = image_mset G (mset_set K)"
    using injG by (simp add: image_mset_mset_set)
  finally show ?thesis by (simp add: G_def K_def)
qed

lemma builtFrom_pathvals:
  assumes b: "builtFrom c ms t s aps"
  shows "mset (pathvals [] t) =
     add_mset ([''all''], of_nat (length ms), of_nat (length ms))
       (image_mset (\<lambda>k. (''all'' # partsOf k, of_nat (count_list (allKeys ms) k), of_nat (length ms)))
          (mset_set (set (allKeys ms))))"
proof -
  note sk = builtFrom_seenOk[OF b]
  have "mset (pathvals [] t) =
      image_mset (\<lambda>x. (snd x, Value (heap s ! fst x), Total (heap s ! fst x))) (mset aps)"
    using b by (simp add: builtFrom_def)
  also have "\<dots> = add_mset ([''all''], Value (heap s ! 0), Total (heap s ! 0))
      (image_mset (\<lambda>k. (''all'' # partsOf k, Value (heap s ! the (seen s k)),
            Total (heap s ! the (seen s k)))) (mset_set (set (allKeys ms))))"
    unfolding builtFrom_mset_aps[OF b] by (simp add: image_mset.compositionality comp_def)
  also have "image_mset (\<lambda>k. (''all'' # partsOf k, Value (heap s ! the (seen s k)),
            Total (heap s ! the (seen s k)))) (mset_set (set (allKeys ms))) =
      image_mset (\<lambda>k. (''all'' # partsOf k, of_nat (count_list (allKeys ms) k), of_nat (length ms)))
          (mset_set (set (allKeys ms)))"
  proof (rule image_mset_cong)
    fix k assume "k \<in># mset_set (set (allKeys ms))"
    then have "k \<in> dom (seen s)" using sk by (simp add: seenOk_def)
    then obtain a where a: "seen s k = Some a" by blast
    with sk have "Value (heap s ! a) = of_nat (count_list (allKeys ms) k)"
      "Total (heap s ! a) = of_nat (length ms)"
      unfolding seenOk_def by blast+
    with a show "(''all'' # partsOf k, Value (heap s ! the (seen s k)), Total (heap s ! the (seen s k))) =
        (''all'' # partsOf k, of_nat (count_list (allKeys ms) k), of_nat (length ms))"
      by simp
  qed
  finally show ?thesis using builtFrom_root(2,3)[OF b] by simp
qed

lemma mset_allKeys: "mset ms = mset ms' \<Longrightarrow> mset (allKeys ms) = mset (allKeys ms')"
proof -
  assume eq: "mset ms = mset ms'"
  have "mset (allKeys xs) = sum_mset (image_mset (\<lambda>m. mset (metricKeys m)) (mset xs))" for xs
    by (induction xs) (simp_all add: allKeys_def)
  with eq show ?thesis by simp
qed

lemma keysOf_joinParts:
  "sf = joinParts (partsOf sf) \<Longrightarrow> \<forall>p \<in> set parts. CHR ''.'' \<notin> set p \<Longrightarrow>
   k \<in> set (keysOf sf parts) \<Longrightarrow> k = joinParts (partsOf k)"
proof (induction parts arbitrary: sf)
  case Nil
  then show ?case by simp
next
  case (Cons part parts)
  show ?case
  proof (cases "part = []")
    case True
    with Cons show ?thesis by simp
  next
    case False
    define key where "key = sf @ ''.'' @ part"
    from Cons.prems(2) have nd: "CHR ''.'' \<notin> set part" by simp
    have "partsOf key = partsOf sf @ [part]"
      unfolding key_def using False nd by (rule partsOf_snoc)
    then have j: "key = joinParts (partsOf key)"
      using Cons.prems(1) by (simp add: joinParts_def key_def)
    from Cons.prems(3) False have "k = key \<or> k \<in> set (keysOf key parts)"
      by (simp add: key_def)
    then show ?thesis
    proof
      assume "k = key" with j show ?thesis by simp
    next
      assume "k \<in> set (keysOf key parts)"
      with Cons.IH[OF j] Cons.prems(2) show ?thesis by simp
    qed
  qed
qed

lemma allKeys_joinParts: "k \<in> set (allKeys ms) \<Longrightarrow> k = joinParts (partsOf k)"
proof -
  assume "k \<in> set (allKeys ms)"
  then obtain m where k: "k \<in> set (keysOf [] (butlast (Split m CHR ''.'')))"
    by (auto simp: allKeys_def metricKeys_def)
  have nd: "\<forall>p \<in> set (butlast (Split m CHR ''.'')). CHR ''.'' \<notin> set p"
    by (blast dest: in_set_butlastD Split_parts_no_sep)
  have e: "[] = joinParts (partsOf [])" by (simp add: joinParts_def partsOf_Nil)
  from e nd k show ?thesis by (rule keysOf_joinParts)
qed

lemma allKeys_not_Nil: "k \<in> set (allKeys ms) \<Longrightarrow> partsOf k \<noteq> []"
proof
  assume k: "k \<in> set (allKeys ms)" and "partsOf k = []"
  with allKeys_joinParts[OF k] have "k = []" by (simp add: joinParts_def)
  moreover from k obtain m where "k \<in> set (keysOf [] (butlast (Split m CHR ''.'')))"
    by (auto simp: allKeys_def metricKeys_def)
  then have "0 < length k" using keysOf_longer by fastforce
  ultimately show False by simp
qed

lemma distinct_of_mset_set:
  assumes "mset xs = mset_set A"
  shows "distinct xs"
proof -
  have "count (mset xs) a \<le> 1" for a
    unfolding assms by (cases "finite A") (simp_all add: count_mset_set')
  then show ?thesis
    by (meson count_greater_zero_iff distinct_count_atmost_1 le_neq_implies_less less_one
          not_gr_zero count_mset_0_iff)
qed

lemma builtFrom_distinct_paths:
  assumes b: "builtFrom c ms t s aps"
  shows "distinct (map fst (pathvals [] t))"
proof -
  define K where "K = set (allKeys ms)"
  define P where "P = (\<lambda>k. ''all'' # partsOf k)"
  have inj: "inj_on P K"
  proof (rule inj_onI)
    fix k k' assume "k \<in> K" "k' \<in> K" "P k = P k'"
    then have "joinParts (partsOf k) = joinParts (partsOf k')" by (simp add: P_def)
    with \<open>k \<in> K\<close> \<open>k' \<in> K\<close> show "k = k'"
      using allKeys_joinParts unfolding K_def by metis
  qed
  have notin: "[''all''] \<notin> P ` K"
  proof
    assume "[''all''] \<in> P ` K"
    then obtain k where "k \<in> set (allKeys ms)" "partsOf k = []" by (auto simp: P_def K_def)
    with allKeys_not_Nil show False by blast
  qed
  have "mset (map fst (pathvals [] t)) = image_mset fst (mset (pathvals [] t))" by simp
  also have "\<dots> = add_mset [''all''] (image_mset P (mset_set K))"
    unfolding builtFrom_pathvals[OF b]
    by (simp add: image_mset.compositionality comp_def P_def K_def)
  also have "\<dots> = add_mset [''all''] (mset_set (P ` K))"
    using inj by (simp add: image_mset_mset_set)
  also have "\<dots> = mset_set (insert [''all''] (P ` K))"
    using notin by (simp add: K_def)
  finally show ?thesis by (rule distinct_of_mset_set)
qed

lemma parseTree_AB: "parseTree ''main'' [''a.x'', ''b.x''] = Some builtAB"
  by code_simp

lemma parseTree_BA: "parseTree ''main'' [''b.x'', ''a.x''] = Some builtBA"
  by code_simp

text \<open>
  C6, as amended. For two lists of names that are permutations of each other, parseTree
  builds two trees with the same nodes when a node is named by the path of names from the
  root to it: each path occurs once in each tree, and it has the same value and the same
  total in both. Nothing is said of the order of the children of a node or of the ids,
  which follow the order of the input.
\<close>

theorem parseTree_permutation:
  assumes "mset metrics = mset metrics'"
  shows "\<exists>t t'. parseTree c metrics = Some t \<and> parseTree c metrics' = Some t' \<and>
           mset (pathvals [] t) = mset (pathvals [] t') \<and>
           distinct (map fst (pathvals [] t)) \<and> distinct (map fst (pathvals [] t'))"
proof -
  from parseTree_builtFrom obtain t s aps where b: "builtFrom c metrics t s aps" by blast
  from parseTree_builtFrom obtain t' s' aps' where b': "builtFrom c metrics' t' s' aps'" by blast
  from assms have k: "mset (allKeys metrics) = mset (allKeys metrics')" by (rule mset_allKeys)
  then have set: "set (allKeys metrics) = set (allKeys metrics')" by (rule mset_eq_setD)
  have cnt: "count_list (allKeys metrics) k = count_list (allKeys metrics') k" for k
    using k by (simp flip: count_mset)
  have len: "length metrics = length metrics'" using assms by (rule mset_eq_length)
  have "mset (pathvals [] t) = mset (pathvals [] t')"
    unfolding builtFrom_pathvals[OF b] builtFrom_pathvals[OF b'] by (simp add: set cnt len)
  moreover have "parseTree c metrics = Some t" "parseTree c metrics' = Some t'"
    using b b' by (simp_all add: builtFrom_def)
  ultimately show ?thesis
    using builtFrom_distinct_paths[OF b] builtFrom_distinct_paths[OF b'] by blast
qed

theorem parseTree_permutation_witness:
  "mset [''a.x'', ''b.x''] = mset [''b.x'', ''a.x''] \<and>
   parseTree ''main'' [''a.x'', ''b.x''] = Some builtAB \<and>
   parseTree ''main'' [''b.x'', ''a.x''] = Some builtBA \<and>
   mset (pathvals [] builtAB) = mset (pathvals [] builtBA) \<and>
   distinct (map fst (pathvals [] builtAB))"
  using parseTree_permutation[of "[''a.x'', ''b.x'']" "[''b.x'', ''a.x'']" "''main''"]
  by (simp add: parseTree_AB parseTree_BA)

text \<open>
  C6 as stated fails for the names \<^verbatim>\<open>a.x\<close>, \<^verbatim>\<open>b.x\<close> in the two orders: the children of the
  root are \<open>a\<close>, \<open>b\<close> in one tree and \<open>b\<close>, \<open>a\<close> in the other.
\<close>

theorem parseTree_order_counterexample:
  "mset [''a.x'', ''b.x''] = mset [''b.x'', ''a.x''] \<and>
   parseTree ''main'' [''a.x'', ''b.x''] = Some builtAB \<and>
   parseTree ''main'' [''b.x'', ''a.x''] = Some builtBA \<and>
   map (\<lambda>n. Name (nfields n)) (Children builtAB) = [''a'', ''b''] \<and>
   map (\<lambda>n. Name (nfields n)) (Children builtBA) = [''b'', ''a''] \<and>
   builtAB \<noteq> builtBA"
  by (simp add: parseTree_AB parseTree_BA) (simp add: builtAB_def builtBA_def)

end
